theory Spec2Isabelle
  imports Main "HOL-Library.Product_Lexorder" "HOL-Library.List_Lexorder"
begin

unbundle bit_operations_syntax

section \<open>Python values and exceptions\<close>

text \<open>
  The constructor of \<open>MazeGenerator\<close> checks the dynamic type of each argument, so the
  arguments are modelled as Python values. \<open>bool\<close> is a subclass of \<open>int\<close> in Python:
  \<open>isinstance(True, int)\<close> holds and \<open>True\<close> counts as 1 in arithmetic and comparisons.
  Floats and user-defined objects are outside the model.
\<close>

datatype pyval = PNone | PBool bool | PInt int | PStr string | PTuple "pyval list"

text \<open>The messages of the exceptions; the f-strings keep their arguments.\<close>

datatype message =
    Msg string
  | MsgTooSmall int int
  | MsgNotTuple string
  | MsgOutOfDims string pyval

datatype error =
    TypeError message
  | ValueError message
  | AttributeError string
  | IndexError
  | OSError

fun truthy :: "pyval \<Rightarrow> bool" where
  "truthy PNone = False"
| "truthy (PBool b) = b"
| "truthy (PInt i) = (i \<noteq> 0)"
| "truthy (PStr s) = (s \<noteq> [])"
| "truthy (PTuple vs) = (vs \<noteq> [])"

fun isinstance_int :: "pyval \<Rightarrow> bool" where
  "isinstance_int (PInt i) = True"
| "isinstance_int (PBool b) = True"
| "isinstance_int v = False"

fun isinstance_str :: "pyval \<Rightarrow> bool" where
  "isinstance_str (PStr s) = True"
| "isinstance_str v = False"

fun isinstance_bool :: "pyval \<Rightarrow> bool" where
  "isinstance_bool (PBool b) = True"
| "isinstance_bool v = False"

fun int_of :: "pyval \<Rightarrow> int" where
  "int_of (PInt i) = i"
| "int_of (PBool b) = (if b then 1 else 0)"
| "int_of v = 0"

fun str_of :: "pyval \<Rightarrow> string" where
  "str_of (PStr s) = s"
| "str_of v = []"

fun bool_of :: "pyval \<Rightarrow> bool" where
  "bool_of (PBool b) = b"
| "bool_of v = False"

text \<open>The coordinate pair held by a tuple of two integers.\<close>

fun coord_of :: "pyval \<Rightarrow> int \<times> int" where
  "coord_of (PTuple [a, b]) = (int_of a, int_of b)"
| "coord_of v = (0, 0)"

section \<open>Cell (models.py)\<close>

record cell =
  walls :: int
  is_visited :: bool

definition NORTH :: int where "NORTH = 1"
definition EAST :: int where "EAST = 2"
definition SOUTH :: int where "SOUTH = 4"
definition WEST :: int where "WEST = 8"

definition Cell :: cell where
  "Cell = \<lparr>walls = 15, is_visited = False\<rparr>"

definition remove_north_wall :: "cell \<Rightarrow> cell" where
  "remove_north_wall c = c\<lparr>walls := walls c AND NOT NORTH\<rparr>"

definition remove_east_wall :: "cell \<Rightarrow> cell" where
  "remove_east_wall c = c\<lparr>walls := walls c AND NOT EAST\<rparr>"

definition remove_south_wall :: "cell \<Rightarrow> cell" where
  "remove_south_wall c = c\<lparr>walls := walls c AND NOT SOUTH\<rparr>"

definition remove_west_wall :: "cell \<Rightarrow> cell" where
  "remove_west_wall c = c\<lparr>walls := walls c AND NOT WEST\<rparr>"

definition has_north_wall :: "cell \<Rightarrow> bool" where
  "has_north_wall c = (walls c AND NORTH \<noteq> 0)"

definition has_east_wall :: "cell \<Rightarrow> bool" where
  "has_east_wall c = (walls c AND EAST \<noteq> 0)"

definition has_south_wall :: "cell \<Rightarrow> bool" where
  "has_south_wall c = (walls c AND SOUTH \<noteq> 0)"

definition has_west_wall :: "cell \<Rightarrow> bool" where
  "has_west_wall c = (walls c AND WEST \<noteq> 0)"

definition visited :: "cell \<Rightarrow> bool" where
  "visited c = is_visited c"

definition set_visited :: "bool \<Rightarrow> cell \<Rightarrow> cell" where
  "set_visited v c = c\<lparr>is_visited := v\<rparr>"

section \<open>MazeGenerator: construction (generator.py)\<close>

type_synonym coord = "int \<times> int"

record maze_generator =
  width :: int
  height :: int
  entry :: coord
  maze_exit :: coord
  seed :: int
  output_file :: string
  perfect :: bool
  pattern_42 :: "coord list"
  maze :: "cell list list"
  path :: "coord list"

text \<open>
  The type and range check of the loop over \<open>{'entry': entry, 'maze_exit': maze_exit}\<close>,
  for one point.
\<close>

definition check_point :: "string \<Rightarrow> pyval \<Rightarrow> int \<Rightarrow> int \<Rightarrow> error + unit" where
  "check_point name point w h =
     (case point of
        PTuple [a, b] \<Rightarrow>
          if isinstance_int a \<and> isinstance_int b then
            (if 0 \<le> int_of a \<and> int_of a < w \<and> 0 \<le> int_of b \<and> int_of b < h
             then Inr ()
             else Inl (ValueError (MsgOutOfDims name point)))
          else Inl (TypeError (MsgNotTuple name))
      | _ \<Rightarrow> Inl (TypeError (MsgNotTuple name)))"

definition validate_inputs ::
  "pyval \<Rightarrow> pyval \<Rightarrow> pyval \<Rightarrow> pyval \<Rightarrow> pyval \<Rightarrow> pyval \<Rightarrow> pyval \<Rightarrow> error + unit" where
  "validate_inputs w h en ex sd out pf =
     (if \<not> isinstance_int w \<or> \<not> isinstance_int h then
        Inl (TypeError (Msg ''Width and hight must be integers!''))
      else if int_of w \<le> 0 \<or> int_of h \<le> 0 then
        Inl (ValueError (Msg ''Width and height must be greater than 0!''))
      else if int_of w < 3 \<or> int_of h < 3 then
        Inl (ValueError (MsgTooSmall (int_of w) (int_of h)))
      else
        (case check_point ''entry'' en (int_of w) (int_of h) of
           Inl e \<Rightarrow> Inl e
         | Inr u \<Rightarrow>
        (case check_point ''maze_exit'' ex (int_of w) (int_of h) of
           Inl e \<Rightarrow> Inl e
         | Inr u \<Rightarrow>
        if coord_of en = coord_of ex then
          Inl (ValueError (Msg ''Entry and exit should be different cells''))
        else if truthy sd \<and> \<not> isinstance_int sd then
          Inl (TypeError (Msg ''Seed value must be an integer!''))
        else if truthy sd \<and> int_of sd < 0 then
          Inl (ValueError (Msg ''Seed value must be greater than 0!''))
        else if \<not> isinstance_str out then
          Inl (TypeError (Msg ''Output file name must be a string!''))
        else if \<not> isinstance_bool pf then
          Inl (TypeError (Msg ''Perfect flag must be a boolean (True/False)!''))
        else Inr ())))"

text \<open>
  The eighteen cells of the pattern, from its anchor. The source computes the anchor as
  \<open>int((width - 7) / 2)\<close> and \<open>int((height - 5) / 2)\<close>: a float division and a truncation,
  which is the integer quotient for the positive operands of this branch (as long as the
  float is exact, below \<open>2^53\<close>).
\<close>

definition pattern_cells :: "int \<Rightarrow> int \<Rightarrow> coord list" where
  "pattern_cells px py =
     [(px, py), (px, py + 1), (px, py + 2), (px + 1, py + 2), (px + 2, py + 2),
      (px + 2, py + 3), (px + 2, py + 4), (px + 4, py), (px + 4, py + 2),
      (px + 4, py + 3), (px + 4, py + 4), (px + 5, py), (px + 5, py + 2),
      (px + 5, py + 4), (px + 6, py), (px + 6, py + 1), (px + 6, py + 2),
      (px + 6, py + 4)]"

definition pattern_anchor :: "int \<Rightarrow> int \<Rightarrow> coord" where
  "pattern_anchor w h = ((w - 7) div 2, (h - 5) div 2)"

definition generate_pattern_42 :: "int \<Rightarrow> int \<Rightarrow> coord \<Rightarrow> coord \<Rightarrow> error + coord list" where
  "generate_pattern_42 w h en ex =
     (if w > 8 \<and> h > 8 then
        (let pattern_x = fst (pattern_anchor w h);
             pattern_y = snd (pattern_anchor w h);
             pattern = pattern_cells pattern_x pattern_y
         in if en \<in> set pattern then
              Inl (ValueError (Msg ''Entry point is inside 42 pattern!''))
            else if ex \<in> set pattern then
              Inl (ValueError (Msg ''Exit point is inside 42 pattern!''))
            else Inr pattern)
      else Inl (ValueError (Msg ''Cannot generate 42 pattern, maze too small!'')))"

text \<open>
  \<open>__init__\<close>. The default of the parameter \<open>seed\<close> is \<open>randint(0, 100)\<close>, which Python
  evaluates once, when the \<open>def\<close> statement runs: \<open>default_seed\<close> is that number, and
  \<open>seed_arg = None\<close> is a call that omits the argument. The assignment
  \<open>self.seed = seed if seed else self.seed\<close> reads the attribute \<open>self.seed\<close> when the
  seed is falsy; the class has no such attribute and the instance has none yet, so the
  read raises AttributeError.
\<close>

definition init ::
  "int \<Rightarrow> pyval \<Rightarrow> pyval \<Rightarrow> pyval \<Rightarrow> pyval \<Rightarrow> pyval \<Rightarrow> pyval \<Rightarrow> pyval option
     \<Rightarrow> error + maze_generator" where
  "init default_seed w h en ex out pf seed_arg =
     (let sd = (case seed_arg of None \<Rightarrow> PInt default_seed | Some v \<Rightarrow> v) in
      case validate_inputs w h en ex sd out pf of
        Inl e \<Rightarrow> Inl e
      | Inr u \<Rightarrow>
          if \<not> truthy sd then
            Inl (AttributeError ''seed'')
          else
            (case generate_pattern_42 (int_of w) (int_of h) (coord_of en) (coord_of ex) of
               Inl e \<Rightarrow> Inl e
             | Inr pattern \<Rightarrow>
                 Inr \<lparr>width = int_of w, height = int_of h, entry = coord_of en,
                      maze_exit = coord_of ex, seed = int_of sd, output_file = str_of out,
                      perfect = bool_of pf, pattern_42 = pattern, maze = [], path = []\<rparr>))"

section \<open>Grid access\<close>

text \<open>
  Python list indexing: an index from \<open>-n\<close> to \<open>-1\<close> counts from the end, anything
  outside \<open>-n .. n - 1\<close> raises IndexError (here \<open>None\<close>).
\<close>

definition py_index :: "nat \<Rightarrow> int \<Rightarrow> nat option" where
  "py_index n i =
     (if 0 \<le> i \<and> i < int n then Some (nat i)
      else if - int n \<le> i \<and> i < 0 then Some (nat (int n + i))
      else None)"

text \<open>\<open>self.maze[y][x]\<close>\<close>

definition cell_at :: "cell list list \<Rightarrow> int \<Rightarrow> int \<Rightarrow> cell option" where
  "cell_at m x y =
     (case py_index (length m) y of
        None \<Rightarrow> None
      | Some j \<Rightarrow>
          (case py_index (length (m ! j)) x of
             None \<Rightarrow> None
           | Some i \<Rightarrow> Some (m ! j ! i)))"

text \<open>
  A method call on the object \<open>self.maze[y][x]\<close> that mutates it: every cell of the grid
  is an object of its own (the comprehension of \<open>_generate_grid\<close> calls \<open>Cell()\<close> for each
  position), so the mutation changes that one position.
\<close>

definition update_cell ::
  "cell list list \<Rightarrow> int \<Rightarrow> int \<Rightarrow> (cell \<Rightarrow> cell) \<Rightarrow> cell list list option" where
  "update_cell m x y f =
     (case py_index (length m) y of
        None \<Rightarrow> None
      | Some j \<Rightarrow>
          (case py_index (length (m ! j)) x of
             None \<Rightarrow> None
           | Some i \<Rightarrow> Some (m[j := (m ! j)[i := f (m ! j ! i)]])))"

definition generate_grid :: "maze_generator \<Rightarrow> cell list list" where
  "generate_grid g = replicate (nat (height g)) (replicate (nat (width g)) Cell)"

definition DIRECTIONS :: "(int \<times> int \<times> int \<times> int) list" where
  "DIRECTIONS = [(0, -1, NORTH, SOUTH), (1, 0, EAST, WEST), (0, 1, SOUTH, NORTH), (-1, 0, WEST, EAST)]"

definition is_not_42_pattern :: "maze_generator \<Rightarrow> int \<Rightarrow> int \<Rightarrow> bool" where
  "is_not_42_pattern g x y = list_all (\<lambda>p. (x, y) \<noteq> p) (pattern_42 g)"

definition in_maze_bounds :: "maze_generator \<Rightarrow> int \<Rightarrow> int \<Rightarrow> bool" where
  "in_maze_bounds g x y =
     (0 \<le> x \<and> x < width g \<and> 0 \<le> y \<and> y < height g \<and> is_not_42_pattern g x y)"

definition remove_wall :: "cell \<Rightarrow> int \<Rightarrow> cell" where
  "remove_wall c wall =
     (if wall = NORTH then remove_north_wall c
      else if wall = EAST then remove_east_wall c
      else if wall = SOUTH then remove_south_wall c
      else if wall = WEST then remove_west_wall c
      else c)"

definition wall_count :: "cell \<Rightarrow> nat" where
  "wall_count c =
     (if has_east_wall c then 1 else 0) + (if has_north_wall c then 1 else 0)
     + (if has_south_wall c then 1 else 0) + (if has_west_wall c then 1 else 0)"

section \<open>The random source\<close>

text \<open>
  \<open>seed(self.seed)\<close> restarts the generator of module \<open>random\<close>, and the k-th call of
  \<open>randint(0, n - 1)\<close> after it returns a number from 0 to \<open>n - 1\<close> fixed by the seed and
  by the calls before it. The model takes the sequence of draws after the seeding as a
  function \<open>rs\<close> and lets the k-th call return \<open>rs k mod n\<close>: every sequence of results
  that a generator can give is obtained from some \<open>rs\<close>, and what is proved for all \<open>rs\<close>
  holds for all of them. An algorithm gets \<open>rs = rng (seed g)\<close>.
\<close>

definition randint0 :: "(nat \<Rightarrow> nat) \<Rightarrow> nat \<Rightarrow> nat \<Rightarrow> nat" where
  "randint0 rs k n = rs k mod n"

section \<open>Depth-first carving\<close>

record dfs_state =
  ds_maze :: "cell list list"
  ds_stack :: "coord list"
  ds_events :: "(coord \<times> int) list"
  ds_draws :: nat

text \<open>
  The list \<open>neighbors\<close> of one iteration: the directions in order, each kept when the
  neighbour is inside the bounds, outside the pattern and not visited. \<open>None\<close> is the
  IndexError of \<open>self.maze[next_y][next_x]\<close>.
\<close>

fun dfs_neighbors ::
  "maze_generator \<Rightarrow> cell list list \<Rightarrow> int \<Rightarrow> int \<Rightarrow> (int \<times> int \<times> int \<times> int) list
     \<Rightarrow> (int \<times> int \<times> int \<times> int) list option" where
  "dfs_neighbors g m x y [] = Some []"
| "dfs_neighbors g m x y ((dir_x, dir_y, wall, op_wall) # ds) =
     (let next_x = x + dir_x; next_y = y + dir_y in
      if in_maze_bounds g next_x next_y then
        (case cell_at m next_x next_y of
           None \<Rightarrow> None
         | Some c \<Rightarrow>
             (case dfs_neighbors g m x y ds of
                None \<Rightarrow> None
              | Some r \<Rightarrow>
                  Some (if \<not> visited c then (next_x, next_y, wall, op_wall) # r else r)))
      else dfs_neighbors g m x y ds)"

text \<open>One iteration of the \<open>while stack\<close> loop, for a stack that is not empty.\<close>

definition dfs_step :: "maze_generator \<Rightarrow> (nat \<Rightarrow> nat) \<Rightarrow> dfs_state \<Rightarrow> error + dfs_state" where
  "dfs_step g rs s =
     (case last (ds_stack s) of (x, y) \<Rightarrow>
      (case cell_at (ds_maze s) x y of
         None \<Rightarrow> Inl IndexError
       | Some current \<Rightarrow>
      (case dfs_neighbors g (ds_maze s) x y DIRECTIONS of
         None \<Rightarrow> Inl IndexError
       | Some neighbors \<Rightarrow>
           if neighbors = [] then Inr (s\<lparr>ds_stack := butlast (ds_stack s)\<rparr>)
           else
             (case neighbors ! randint0 rs (ds_draws s) (length neighbors) of
                (next_x, next_y, wall, op_wall) \<Rightarrow>
             (case update_cell (ds_maze s) x y (\<lambda>c. remove_wall c wall) of
                None \<Rightarrow> Inl IndexError
              | Some m1 \<Rightarrow>
             (case update_cell m1 next_x next_y (\<lambda>c. set_visited True (remove_wall c op_wall)) of
                None \<Rightarrow> Inl IndexError
              | Some m2 \<Rightarrow>
                  Inr \<lparr>ds_maze = m2,
                       ds_stack = ds_stack s @ [(next_x, next_y)],
                       ds_events = ds_events s @ [((x, y), wall)],
                       ds_draws = ds_draws s + 1\<rparr>))))))"

text \<open>The number of cells of the grid that are not visited: what the carving loops use up.\<close>

definition unvisited_count :: "cell list list \<Rightarrow> nat" where
  "unvisited_count m = sum_list (map (\<lambda>row. length (filter (\<lambda>c. \<not> is_visited c) row)) m)"

lemma py_index_less: "py_index n i = Some k \<Longrightarrow> k < n"
  by (auto simp: py_index_def split: if_splits)

lemma filter_count_update:
  "i < length r \<Longrightarrow>
   length (filter P (r[i := c])) + (if P (r ! i) then 1 else 0)
     = length (filter P r) + (if P c then 1 else 0)"
proof -
  assume a: "i < length r"
  have 1: "length (filter P r)
      = length (filter P (take i r)) + (if P (r ! i) then 1 else 0)
        + length (filter P (drop (Suc i) r))"
    using arg_cong [OF id_take_nth_drop [OF a], of "\<lambda>xs. length (filter P xs)"] by simp
  have 2: "length (filter P (r[i := c]))
      = length (filter P (take i r)) + (if P c then 1 else 0)
        + length (filter P (drop (Suc i) r))"
    using arg_cong [OF upd_conv_take_nth_drop [OF a], of "\<lambda>xs. length (filter P xs)" c]
    by simp
  from 1 2 show ?thesis by simp
qed

lemma unvisited_count_update:
  "j < length m \<Longrightarrow> i < length (m ! j) \<Longrightarrow>
   unvisited_count (m[j := (m ! j)[i := c]]) + (if is_visited (m ! j ! i) then 0 else 1)
     = unvisited_count m + (if is_visited c then 0 else 1)"
proof (induction m arbitrary: j)
  case Nil
  then show ?case by simp
next
  case (Cons r m)
  show ?case
  proof (cases j)
    case 0
    with Cons.prems filter_count_update [of i r "\<lambda>c. \<not> is_visited c" c]
    show ?thesis by (auto simp: unvisited_count_def)
  next
    case (Suc j')
    with Cons.prems Cons.IH [of j'] show ?thesis by (auto simp: unvisited_count_def)
  qed
qed

lemma update_cell_SomeD:
  "update_cell m x y f = Some m' \<Longrightarrow>
   \<exists>j i. py_index (length m) y = Some j \<and> py_index (length (m ! j)) x = Some i
     \<and> j < length m \<and> i < length (m ! j)
     \<and> cell_at m x y = Some (m ! j ! i) \<and> m' = m[j := (m ! j)[i := f (m ! j ! i)]]"
  by (auto simp: update_cell_def cell_at_def split: option.splits dest: py_index_less)

lemma update_cell_length: "update_cell m x y f = Some m' \<Longrightarrow> length m' = length m"
  by (auto dest: update_cell_SomeD)

lemma update_cell_row_length:
  "update_cell m x y f = Some m' \<Longrightarrow> length (m' ! k) = length (m ! k)"
  by (auto dest!: update_cell_SomeD simp: nth_list_update)

lemma update_cell_unvisited_same:
  assumes "update_cell m x y f = Some m'" and "\<And>c. is_visited (f c) = is_visited c"
  shows "unvisited_count m' = unvisited_count m"
proof -
  from update_cell_SomeD [OF assms(1)] obtain j i where
    ji: "j < length m" "i < length (m ! j)" "m' = m[j := (m ! j)[i := f (m ! j ! i)]]" by blast
  from unvisited_count_update [OF ji(1,2), of "f (m ! j ! i)"] ji(3) assms(2)
  show ?thesis by (simp split: if_splits)
qed

lemma update_cell_unvisited_less:
  assumes "update_cell m x y f = Some m'" and "cell_at m x y = Some c" and "\<not> is_visited c"
    and "\<And>c. is_visited (f c)"
  shows "unvisited_count m' < unvisited_count m"
proof -
  from update_cell_SomeD [OF assms(1)] obtain j i where
    ji: "j < length m" "i < length (m ! j)" "cell_at m x y = Some (m ! j ! i)"
      "m' = m[j := (m ! j)[i := f (m ! j ! i)]]" by blast
  from unvisited_count_update [OF ji(1,2), of "f (m ! j ! i)"] ji(3,4) assms(2,3,4)
  show ?thesis by (simp split: if_splits)
qed

lemma update_cell_visited_flag:
  assumes "update_cell m x y f = Some m'" and "\<And>c. is_visited (f c) = is_visited c"
    and "cell_at m x' y' = Some c"
  shows "\<exists>c'. cell_at m' x' y' = Some c' \<and> is_visited c' = is_visited c"
proof -
  from update_cell_SomeD [OF assms(1)] obtain j i where
    ji: "j < length m" "i < length (m ! j)" "m' = m[j := (m ! j)[i := f (m ! j ! i)]]" by blast
  from assms(3) obtain j' i' where
    a: "py_index (length m) y' = Some j'" "py_index (length (m ! j')) x' = Some i'" "c = m ! j' ! i'"
    by (auto simp: cell_at_def split: option.splits)
  have b: "j' < length m" "i' < length (m ! j')" using a by (auto dest: py_index_less)
  show ?thesis using a b ji assms(2)
    by (cases "j' = j"; cases "i' = i") (auto simp: cell_at_def nth_list_update)
qed

lemma dfs_neighbors_unvisited:
  "dfs_neighbors g m x y ds = Some r \<Longrightarrow> (nx, ny, w, ow) \<in> set r \<Longrightarrow>
   \<exists>c. cell_at m nx ny = Some c \<and> \<not> is_visited c"
  by (induction ds arbitrary: r)
     (auto simp: Let_def visited_def split: if_splits option.splits)

lemma randint0_less: "0 < n \<Longrightarrow> randint0 rs k n < n"
  by (simp add: randint0_def)

lemma remove_wall_is_visited [simp]: "is_visited (remove_wall c w) = is_visited c"
  by (simp add: remove_wall_def remove_north_wall_def remove_east_wall_def
      remove_south_wall_def remove_west_wall_def)

lemma dfs_step_cases:
  assumes "dfs_step g rs s = Inr s'"
  obtains (pop) x y current where "last (ds_stack s) = (x, y)"
      "cell_at (ds_maze s) x y = Some current"
      "dfs_neighbors g (ds_maze s) x y DIRECTIONS = Some []"
      "s' = s\<lparr>ds_stack := butlast (ds_stack s)\<rparr>"
  | (carve) x y current neighbors next_x next_y wall op_wall m1 m2 where
      "last (ds_stack s) = (x, y)"
      "cell_at (ds_maze s) x y = Some current"
      "dfs_neighbors g (ds_maze s) x y DIRECTIONS = Some neighbors"
      "(next_x, next_y, wall, op_wall) \<in> set neighbors"
      "update_cell (ds_maze s) x y (\<lambda>c. remove_wall c wall) = Some m1"
      "update_cell m1 next_x next_y (\<lambda>c. set_visited True (remove_wall c op_wall)) = Some m2"
      "s' = \<lparr>ds_maze = m2, ds_stack = ds_stack s @ [(next_x, next_y)],
             ds_events = ds_events s @ [((x, y), wall)], ds_draws = ds_draws s + 1\<rparr>"
proof -
  obtain x y where xy: "last (ds_stack s) = (x, y)" by (cases "last (ds_stack s)")
  from assms xy obtain current where cur: "cell_at (ds_maze s) x y = Some current"
    by (auto simp: dfs_step_def split: option.splits)
  from assms xy cur obtain neighbors where
    nb: "dfs_neighbors g (ds_maze s) x y DIRECTIONS = Some neighbors"
    by (auto simp: dfs_step_def split: option.splits)
  show thesis
  proof (cases "neighbors = []")
    case True
    with assms xy cur nb have "s' = s\<lparr>ds_stack := butlast (ds_stack s)\<rparr>"
      by (simp add: dfs_step_def)
    with xy cur nb True show thesis using pop by blast
  next
    case False
    let ?k = "randint0 rs (ds_draws s) (length neighbors)"
    obtain next_x next_y wall op_wall where
      pick: "neighbors ! ?k = (next_x, next_y, wall, op_wall)" by (cases "neighbors ! ?k")
    have mem: "(next_x, next_y, wall, op_wall) \<in> set neighbors"
      using False pick randint0_less [of "length neighbors" rs "ds_draws s"]
      by (metis length_greater_0_conv nth_mem)
    from assms xy cur nb False pick obtain m1 where
      m1: "update_cell (ds_maze s) x y (\<lambda>c. remove_wall c wall) = Some m1"
      by (auto simp: dfs_step_def split: option.splits)
    from assms xy cur nb False pick m1 obtain m2 where
      m2: "update_cell m1 next_x next_y (\<lambda>c. set_visited True (remove_wall c op_wall)) = Some m2"
      by (auto simp: dfs_step_def split: option.splits)
    from assms xy cur nb False pick m1 m2 have
      "s' = \<lparr>ds_maze = m2, ds_stack = ds_stack s @ [(next_x, next_y)],
             ds_events = ds_events s @ [((x, y), wall)], ds_draws = ds_draws s + 1\<rparr>"
      by (simp add: dfs_step_def)
    with xy cur nb mem m1 m2 show thesis using carve by blast
  qed
qed

lemma dfs_step_decreases:
  assumes "dfs_step g rs s = Inr s'" and "ds_stack s \<noteq> []"
  shows "unvisited_count (ds_maze s') < unvisited_count (ds_maze s)
    \<or> (unvisited_count (ds_maze s') = unvisited_count (ds_maze s)
        \<and> length (ds_stack s') < length (ds_stack s))"
  using assms(1)
proof (cases rule: dfs_step_cases)
  case (pop x y current)
  with assms(2) show ?thesis by simp
next
  case (carve x y current neighbors next_x next_y wall op_wall m1 m2)
  from dfs_neighbors_unvisited [OF carve(3,4)] obtain c where
    c: "cell_at (ds_maze s) next_x next_y = Some c" "\<not> is_visited c" by blast
  from update_cell_visited_flag [OF carve(5) _ c(1)] obtain c' where
    c': "cell_at m1 next_x next_y = Some c'" "is_visited c' = is_visited c" by auto
  have "unvisited_count m1 = unvisited_count (ds_maze s)"
    using update_cell_unvisited_same [OF carve(5)] by simp
  moreover have "unvisited_count m2 < unvisited_count m1"
    using update_cell_unvisited_less [OF carve(6) c'(1)] c'(2) c(2)
    by (simp add: set_visited_def)
  ultimately show ?thesis using carve(7) by simp
qed

function dfs_loop :: "maze_generator \<Rightarrow> (nat \<Rightarrow> nat) \<Rightarrow> dfs_state \<Rightarrow> error + dfs_state" where
  "dfs_loop g rs s =
     (if ds_stack s = [] then Inr s
      else (case dfs_step g rs s of Inl e \<Rightarrow> Inl e | Inr s' \<Rightarrow> dfs_loop g rs s'))"
  by pat_completeness auto
termination
proof (relation "measures [\<lambda>(g, rs, s). unvisited_count (ds_maze s),
                           \<lambda>(g, rs, s). length (ds_stack s)]")
  show "wf (measures [\<lambda>(g, rs, s). unvisited_count (ds_maze s),
                      \<lambda>(g, rs, s). length (ds_stack s)])"
    by simp
next
  fix g rs s s'
  assume "ds_stack s \<noteq> []" and "dfs_step g rs s = Inr s'"
  from dfs_step_decreases [OF this(2,1)]
  show "((g, rs, s'), (g, rs, s))
      \<in> measures [\<lambda>(g, rs, s). unvisited_count (ds_maze s),
                   \<lambda>(g, rs, s). length (ds_stack s)]"
    by auto
qed

section \<open>Dead-end braiding\<close>

text \<open>The list \<open>neighbors\<close> of a dead end: the directions whose neighbour is in the bounds
  and outside the pattern.\<close>

fun braid_neighbors ::
  "maze_generator \<Rightarrow> int \<Rightarrow> int \<Rightarrow> (int \<times> int \<times> int \<times> int) list
     \<Rightarrow> (int \<times> int \<times> int \<times> int) list" where
  "braid_neighbors g x y [] = []"
| "braid_neighbors g x y ((dx, dy, wall, op_wall) # ds) =
     (let nx = x + dx; ny = y + dy in
      if in_maze_bounds g nx ny then (nx, ny, wall, op_wall) # braid_neighbors g x y ds
      else braid_neighbors g x y ds)"

text \<open>The body of the two \<open>for\<close> loops at the cell \<open>(x, y)\<close>; the state is the grid and
  the number of draws made so far.\<close>

definition braid_cell ::
  "maze_generator \<Rightarrow> (nat \<Rightarrow> nat) \<Rightarrow> cell list list \<times> nat \<Rightarrow> coord
     \<Rightarrow> error + cell list list \<times> nat" where
  "braid_cell g rs st p =
     (case st of (m, k) \<Rightarrow> (case p of (x, y) \<Rightarrow>
      if \<not> is_not_42_pattern g x y then Inr (m, k)
      else
        (case cell_at m x y of
           None \<Rightarrow> Inl IndexError
         | Some cell \<Rightarrow>
             if wall_count cell = 3 then
               (let neighbors = braid_neighbors g x y DIRECTIONS in
                if neighbors \<noteq> [] then
                  (case neighbors ! randint0 rs k (length neighbors) of
                     (nx, ny, wall, op_wall) \<Rightarrow>
                  (case update_cell m x y (\<lambda>c. remove_wall c wall) of
                     None \<Rightarrow> Inl IndexError
                   | Some m1 \<Rightarrow>
                  (case update_cell m1 nx ny (\<lambda>c. remove_wall c op_wall) of
                     None \<Rightarrow> Inl IndexError
                   | Some m2 \<Rightarrow> Inr (m2, k + 1))))
                else Inr (m, k))
             else Inr (m, k))))"

fun braid_loop ::
  "maze_generator \<Rightarrow> (nat \<Rightarrow> nat) \<Rightarrow> coord list \<Rightarrow> cell list list \<times> nat
     \<Rightarrow> error + cell list list \<times> nat" where
  "braid_loop g rs [] st = Inr st"
| "braid_loop g rs (p # ps) st =
     (case braid_cell g rs st p of Inl e \<Rightarrow> Inl e | Inr st' \<Rightarrow> braid_loop g rs ps st')"

text \<open>\<open>for y in range(1, self.height - 1): for x in range(1, self.width - 1)\<close>\<close>

definition braid_coords :: "maze_generator \<Rightarrow> coord list" where
  "braid_coords g = concat (map (\<lambda>y. map (\<lambda>x. (x, y)) [1..width g - 2]) [1..height g - 2])"

definition braid_dead_ends :: "maze_generator \<Rightarrow> (int \<Rightarrow> nat \<Rightarrow> nat) \<Rightarrow> error + maze_generator" where
  "braid_dead_ends g rng =
     (case braid_loop g (rng (seed g)) (braid_coords g) (maze g, 0) of
        Inl e \<Rightarrow> Inl e
      | Inr (m, k) \<Rightarrow> Inr (g\<lparr>maze := m\<rparr>))"

section \<open>The carving algorithms, run to the end\<close>

text \<open>
  \<open>dfs_steps\<close> exhausted: the events it yields, in order, and the generator afterwards.
  The first event is \<open>(entry, -1)\<close>.
\<close>

definition dfs_start :: "maze_generator \<Rightarrow> error + dfs_state" where
  "dfs_start g =
     (case entry g of (start_x, start_y) \<Rightarrow>
      (case update_cell (generate_grid g) start_x start_y (set_visited True) of
         None \<Rightarrow> Inl IndexError
       | Some m \<Rightarrow>
           Inr \<lparr>ds_maze = m, ds_stack = [entry g], ds_events = [(entry g, -1)], ds_draws = 0\<rparr>))"

definition dfs_steps ::
  "maze_generator \<Rightarrow> (int \<Rightarrow> nat \<Rightarrow> nat) \<Rightarrow> error + (coord \<times> int) list \<times> maze_generator" where
  "dfs_steps g rng =
     (case dfs_start g of
        Inl e \<Rightarrow> Inl e
      | Inr s0 \<Rightarrow>
     (case dfs_loop g (rng (seed g)) s0 of
        Inl e \<Rightarrow> Inl e
      | Inr s \<Rightarrow>
          if \<not> perfect g then
            (case braid_dead_ends (g\<lparr>maze := ds_maze s\<rparr>) rng of
               Inl e \<Rightarrow> Inl e
             | Inr g' \<Rightarrow> Inr (ds_events s, g'))
          else Inr (ds_events s, g\<lparr>maze := ds_maze s\<rparr>)))"

definition dfs :: "maze_generator \<Rightarrow> (int \<Rightarrow> nat \<Rightarrow> nat) \<Rightarrow> error + maze_generator" where
  "dfs g rng = (case dfs_steps g rng of Inl e \<Rightarrow> Inl e | Inr (evs, g') \<Rightarrow> Inr g')"

section \<open>Randomized Prim\<close>

type_synonym edge = "int \<times> int \<times> int \<times> int \<times> int \<times> int"

record prim_state =
  ps_maze :: "cell list list"
  ps_frontier :: "edge list"
  ps_events :: "(coord \<times> int) list"
  ps_draws :: nat

text \<open>What \<open>add_to_frontier(x, y)\<close> appends to the frontier.\<close>

fun add_to_frontier ::
  "maze_generator \<Rightarrow> cell list list \<Rightarrow> int \<Rightarrow> int \<Rightarrow> (int \<times> int \<times> int \<times> int) list
     \<Rightarrow> edge list option" where
  "add_to_frontier g m x y [] = Some []"
| "add_to_frontier g m x y ((dx, dy, wall, op_wall) # ds) =
     (let next_x = x + dx; next_y = y + dy in
      if in_maze_bounds g next_x next_y then
        (case cell_at m next_x next_y of
           None \<Rightarrow> None
         | Some c \<Rightarrow>
             (case add_to_frontier g m x y ds of
                None \<Rightarrow> None
              | Some r \<Rightarrow>
                  Some (if \<not> visited c then (x, y, next_x, next_y, wall, op_wall) # r else r)))
      else add_to_frontier g m x y ds)"

text \<open>One iteration of the \<open>while frontier\<close> loop, for a frontier that is not empty;
  \<open>frontier.pop(idx)\<close> takes the element at \<open>idx\<close> out of the list.\<close>

definition prim_step :: "maze_generator \<Rightarrow> (nat \<Rightarrow> nat) \<Rightarrow> prim_state \<Rightarrow> error + prim_state" where
  "prim_step g rs s =
     (let idx = randint0 rs (ps_draws s) (length (ps_frontier s));
          frontier = take idx (ps_frontier s) @ drop (Suc idx) (ps_frontier s) in
      case ps_frontier s ! idx of (curr_x, curr_y, next_x, next_y, wall, op_wall) \<Rightarrow>
      (case cell_at (ps_maze s) next_x next_y of
         None \<Rightarrow> Inl IndexError
       | Some c \<Rightarrow>
           if \<not> visited c then
             (case update_cell (ps_maze s) curr_x curr_y (\<lambda>c. remove_wall c wall) of
                None \<Rightarrow> Inl IndexError
              | Some m1 \<Rightarrow>
             (case update_cell m1 next_x next_y (\<lambda>c. set_visited True (remove_wall c op_wall)) of
                None \<Rightarrow> Inl IndexError
              | Some m2 \<Rightarrow>
             (case add_to_frontier g m2 next_x next_y DIRECTIONS of
                None \<Rightarrow> Inl IndexError
              | Some new \<Rightarrow>
                  Inr \<lparr>ps_maze = m2, ps_frontier = frontier @ new,
                       ps_events = ps_events s @ [((curr_x, curr_y), wall)],
                       ps_draws = ps_draws s + 1\<rparr>)))
           else Inr (s\<lparr>ps_frontier := frontier, ps_draws := ps_draws s + 1\<rparr>)))"

lemma prim_step_decreases:
  assumes "prim_step g rs s = Inr s'" and "ps_frontier s \<noteq> []"
  shows "unvisited_count (ps_maze s') < unvisited_count (ps_maze s)
    \<or> (unvisited_count (ps_maze s') = unvisited_count (ps_maze s)
        \<and> length (ps_frontier s') < length (ps_frontier s))"
proof -
  let ?idx = "randint0 rs (ps_draws s) (length (ps_frontier s))"
  have idx: "?idx < length (ps_frontier s)" using assms(2) by (simp add: randint0_less)
  obtain curr_x curr_y next_x next_y wall op_wall where
    e: "ps_frontier s ! ?idx = (curr_x, curr_y, next_x, next_y, wall, op_wall)"
    by (cases "ps_frontier s ! ?idx")
  from assms(1) e obtain c where c: "cell_at (ps_maze s) next_x next_y = Some c"
    by (auto simp: prim_step_def Let_def split: option.splits)
  show ?thesis
  proof (cases "visited c")
    case True
    with assms(1) e c idx show ?thesis by (auto simp: prim_step_def Let_def)
  next
    case False
    from assms(1) e c False obtain m1 where
      m1: "update_cell (ps_maze s) curr_x curr_y (\<lambda>c. remove_wall c wall) = Some m1"
      by (auto simp: prim_step_def Let_def split: option.splits)
    from assms(1) e c False m1 obtain m2 where
      m2: "update_cell m1 next_x next_y (\<lambda>c. set_visited True (remove_wall c op_wall)) = Some m2"
      by (auto simp: prim_step_def Let_def split: option.splits)
    from assms(1) e c False m1 m2 have s': "ps_maze s' = m2"
      by (auto simp: prim_step_def Let_def split: option.splits)
    from update_cell_visited_flag [OF m1 _ c] obtain c' where
      c': "cell_at m1 next_x next_y = Some c'" "is_visited c' = is_visited c" by auto
    have "unvisited_count m1 = unvisited_count (ps_maze s)"
      using update_cell_unvisited_same [OF m1] by simp
    moreover have "unvisited_count m2 < unvisited_count m1"
      using update_cell_unvisited_less [OF m2 c'(1)] c'(2) False
      by (simp add: set_visited_def visited_def)
    ultimately show ?thesis using s' by simp
  qed
qed

function prim_loop :: "maze_generator \<Rightarrow> (nat \<Rightarrow> nat) \<Rightarrow> prim_state \<Rightarrow> error + prim_state" where
  "prim_loop g rs s =
     (if ps_frontier s = [] then Inr s
      else (case prim_step g rs s of Inl e \<Rightarrow> Inl e | Inr s' \<Rightarrow> prim_loop g rs s'))"
  by pat_completeness auto
termination
proof (relation "measures [\<lambda>(g, rs, s). unvisited_count (ps_maze s),
                           \<lambda>(g, rs, s). length (ps_frontier s)]")
  show "wf (measures [\<lambda>(g, rs, s). unvisited_count (ps_maze s),
                      \<lambda>(g, rs, s). length (ps_frontier s)])"
    by simp
next
  fix g rs s s'
  assume "ps_frontier s \<noteq> []" and "prim_step g rs s = Inr s'"
  from prim_step_decreases [OF this(2,1)]
  show "((g, rs, s'), (g, rs, s))
      \<in> measures [\<lambda>(g, rs, s). unvisited_count (ps_maze s),
                   \<lambda>(g, rs, s). length (ps_frontier s)]"
    by auto
qed

definition prim_start :: "maze_generator \<Rightarrow> error + prim_state" where
  "prim_start g =
     (case entry g of (start_x, start_y) \<Rightarrow>
      (case update_cell (generate_grid g) start_x start_y (set_visited True) of
         None \<Rightarrow> Inl IndexError
       | Some m \<Rightarrow>
      (case add_to_frontier g m start_x start_y DIRECTIONS of
         None \<Rightarrow> Inl IndexError
       | Some new \<Rightarrow>
           Inr \<lparr>ps_maze = m, ps_frontier = new, ps_events = [(entry g, -1)], ps_draws = 0\<rparr>)))"

definition prim_steps ::
  "maze_generator \<Rightarrow> (int \<Rightarrow> nat \<Rightarrow> nat) \<Rightarrow> error + (coord \<times> int) list \<times> maze_generator" where
  "prim_steps g rng =
     (case prim_start g of
        Inl e \<Rightarrow> Inl e
      | Inr s0 \<Rightarrow>
     (case prim_loop g (rng (seed g)) s0 of
        Inl e \<Rightarrow> Inl e
      | Inr s \<Rightarrow>
          if \<not> perfect g then
            (case braid_dead_ends (g\<lparr>maze := ps_maze s\<rparr>) rng of
               Inl e \<Rightarrow> Inl e
             | Inr g' \<Rightarrow> Inr (ps_events s, g'))
          else Inr (ps_events s, g\<lparr>maze := ps_maze s\<rparr>)))"

definition prim :: "maze_generator \<Rightarrow> (int \<Rightarrow> nat \<Rightarrow> nat) \<Rightarrow> error + maze_generator" where
  "prim g rng = (case prim_steps g rng of Inl e \<Rightarrow> Inl e | Inr (evs, g') \<Rightarrow> Inr g')"

section \<open>Shortest-path search\<close>

text \<open>
  An entry of the priority queue is the tuple \<open>(cost, (x, y), path)\<close>. Python compares
  tuples and lists lexicographically, which is the order of the types here. \<open>heapq\<close>
  keeps the list as a binary heap; \<open>heappop\<close> returns its least element, and the order
  is total, so what is popped depends on the elements of the queue only: the queue is
  modelled as the list of its elements, in any order. The cost starts at 0 and only
  grows by 1, so it is a natural number.
\<close>

type_synonym qentry = "nat \<times> coord \<times> coord list"

definition heappush :: "qentry list \<Rightarrow> qentry \<Rightarrow> qentry list" where
  "heappush pq e = e # pq"

definition heappop :: "qentry list \<Rightarrow> qentry \<times> qentry list" where
  "heappop pq = (let e = Min (set pq) in (e, remove1 e pq))"

record search_state =
  sp_pq :: "qentry list"
  sp_distance :: "coord \<rightharpoonup> nat"
  sp_yields :: "coord list list"

text \<open>The body of \<open>for dx, dy, has_wall in directions\<close>.\<close>

definition relax ::
  "maze_generator \<Rightarrow> nat \<Rightarrow> coord \<Rightarrow> coord list \<Rightarrow> qentry list \<times> (coord \<rightharpoonup> nat)
     \<Rightarrow> int \<times> int \<times> bool \<Rightarrow> qentry list \<times> (coord \<rightharpoonup> nat)" where
  "relax g current_cost cur pth st dir =
     (case st of (pq, distance) \<Rightarrow>
      (case dir of (dx, dy, has_wall) \<Rightarrow>
      (case cur of (curr_x, curr_y) \<Rightarrow>
         (let nx = curr_x + dx; ny = curr_y + dy in
          if 0 \<le> nx \<and> nx < width g \<and> 0 \<le> ny \<and> ny < height g \<and> \<not> has_wall then
            (let new_cost = current_cost + 1 in
             if (case distance (nx, ny) of None \<Rightarrow> True | Some d \<Rightarrow> new_cost < d) then
               (heappush pq (new_cost, (nx, ny), pth @ [(nx, ny)]),
                distance((nx, ny) \<mapsto> new_cost))
             else (pq, distance))
          else (pq, distance)))))"

datatype search_step_result =
    Found "coord list" "coord list list"
  | Continue search_state
  | Raise error

text \<open>The list \<open>directions\<close> of the cell that is expanded.\<close>

definition path_directions :: "cell \<Rightarrow> (int \<times> int \<times> bool) list" where
  "path_directions current_cell =
     [(0, -1, has_north_wall current_cell),
      (1, 0, has_east_wall current_cell),
      (0, 1, has_south_wall current_cell),
      (-1, 0, has_west_wall current_cell)]"

text \<open>One iteration of \<open>while pq\<close>, for a queue that is not empty.\<close>

definition search_step :: "maze_generator \<Rightarrow> search_state \<Rightarrow> search_step_result" where
  "search_step g s =
     (case heappop (sp_pq s) of ((current_cost, (curr_x, curr_y), pth), pq) \<Rightarrow>
      (let yields = sp_yields s @ [pth] in
       if (curr_x, curr_y) = maze_exit g then Found pth yields
       else if (case sp_distance s (curr_x, curr_y) of
                  None \<Rightarrow> False | Some d \<Rightarrow> current_cost > d) then
         Continue (s\<lparr>sp_pq := pq, sp_yields := yields\<rparr>)
       else
         (case cell_at (maze g) curr_x curr_y of
            None \<Rightarrow> Raise IndexError
          | Some current_cell \<Rightarrow>
              (let directions = path_directions current_cell
               in case foldl (relax g current_cost (curr_x, curr_y) pth)
                         (pq, sp_distance s) directions of
                    (pq', distance') \<Rightarrow>
                      Continue \<lparr>sp_pq = pq', sp_distance = distance', sp_yields = yields\<rparr>))))"

text \<open>What the search uses up: the cells of the grid without a known cost, then the sum
  of the known costs, then the length of the queue.\<close>

definition cells :: "maze_generator \<Rightarrow> coord set" where
  "cells g = {0..<width g} \<times> {0..<height g}"

definition unseen :: "maze_generator \<Rightarrow> (coord \<rightharpoonup> nat) \<Rightarrow> nat" where
  "unseen g d = card {c \<in> cells g. d c = None}"

definition total_cost :: "maze_generator \<Rightarrow> (coord \<rightharpoonup> nat) \<Rightarrow> nat" where
  "total_cost g d = (\<Sum>c\<in>cells g. case d c of None \<Rightarrow> 0 | Some k \<Rightarrow> k)"

lemma finite_cells [simp]: "finite (cells g)"
  by (simp add: cells_def)

lemma unseen_update_None:
  assumes "n \<in> cells g" and "d n = None"
  shows "unseen g (d(n \<mapsto> k)) < unseen g d"
proof -
  have eq: "{c \<in> cells g. (d(n \<mapsto> k)) c = None} = {c \<in> cells g. d c = None} - {n}"
    by (rule set_eqI) simp
  have mem: "n \<in> {c \<in> cells g. d c = None}" using assms by simp
  have fin: "finite {c \<in> cells g. d c = None}" by simp
  show ?thesis
    unfolding unseen_def eq by (rule card_Diff1_less [OF fin mem])
qed

lemma unseen_update_Some:
  assumes "d n = Some j"
  shows "unseen g (d(n \<mapsto> k)) = unseen g d"
proof -
  have "{c \<in> cells g. (d(n \<mapsto> k)) c = None} = {c \<in> cells g. d c = None}"
    by (rule set_eqI) (simp add: assms)
  then show ?thesis by (simp only: unseen_def)
qed

definition cost_or_zero :: "(coord \<rightharpoonup> nat) \<Rightarrow> coord \<Rightarrow> nat" where
  "cost_or_zero d c = (case d c of None \<Rightarrow> 0 | Some k \<Rightarrow> k)"

lemma total_cost_alt: "total_cost g d = sum (cost_or_zero d) (cells g)"
  by (simp add: total_cost_def cost_or_zero_def)

lemma total_cost_update_Some:
  assumes "n \<in> cells g" and "d n = Some j" and "k < j"
  shows "total_cost g (d(n \<mapsto> k)) < total_cost g d"
proof -
  have 1: "total_cost g d = j + sum (cost_or_zero d) (cells g - {n})"
    unfolding total_cost_alt
    using sum.remove [OF finite_cells assms(1), of "cost_or_zero d"] assms(2)
    by (simp add: cost_or_zero_def)
  have 2: "total_cost g (d(n \<mapsto> k)) = k + sum (cost_or_zero (d(n \<mapsto> k))) (cells g - {n})"
    unfolding total_cost_alt
    using sum.remove [OF finite_cells assms(1), of "cost_or_zero (d(n \<mapsto> k))"]
    by (simp add: cost_or_zero_def)
  have 3: "sum (cost_or_zero (d(n \<mapsto> k))) (cells g - {n}) = sum (cost_or_zero d) (cells g - {n})"
    by (rule sum.cong) (simp_all add: cost_or_zero_def)
  from 1 2 3 assms(3) show ?thesis by simp
qed

definition search_less :: "maze_generator \<Rightarrow> (coord \<rightharpoonup> nat) \<Rightarrow> (coord \<rightharpoonup> nat) \<Rightarrow> bool" where
  "search_less g d' d =
     (unseen g d' < unseen g d \<or> (unseen g d' = unseen g d \<and> total_cost g d' < total_cost g d))"

lemma search_less_trans: "search_less g a b \<Longrightarrow> search_less g b c \<Longrightarrow> search_less g a c"
  by (auto simp: search_less_def)

lemma relax_unfold:
  "relax g cc (cx, cy) p (pq, d) (dx, dy, hw) =
     (if 0 \<le> cx + dx \<and> cx + dx < width g \<and> 0 \<le> cy + dy \<and> cy + dy < height g \<and> \<not> hw then
        (if (case d (cx + dx, cy + dy) of None \<Rightarrow> True | Some j \<Rightarrow> cc + 1 < j) then
           (heappush pq (cc + 1, (cx + dx, cy + dy), p @ [(cx + dx, cy + dy)]),
            d((cx + dx, cy + dy) \<mapsto> cc + 1))
         else (pq, d))
      else (pq, d))"
  by (simp only: relax_def Let_def prod.case)

lemma relax_measure:
  assumes "relax g cc cur p (pq, d) dir = (pq', d')"
  shows "(pq' = pq \<and> d' = d) \<or> search_less g d' d"
proof -
  obtain dx dy hw where dir: "dir = (dx, dy, hw)" by (cases dir)
  obtain cx cy where cur: "cur = (cx, cy)" by (cases cur)
  let ?n = "(cx + dx, cy + dy)"
  note r = assms [unfolded dir cur relax_unfold]
  show ?thesis
  proof (cases "0 \<le> cx + dx \<and> cx + dx < width g \<and> 0 \<le> cy + dy \<and> cy + dy < height g \<and> \<not> hw")
    case False
    with r show ?thesis by simp
  next
    case inb: True
    then have n: "?n \<in> cells g" by (simp add: cells_def)
    show ?thesis
    proof (cases "d ?n")
      case None
      with r inb have "d' = d(?n \<mapsto> cc + 1)" by simp
      with unseen_update_None [where d = d and n = "?n", OF n None] show ?thesis
        by (simp add: search_less_def)
    next
      case (Some j)
      show ?thesis
      proof (cases "cc + 1 < j")
        case True
        with r inb Some have "d' = d(?n \<mapsto> cc + 1)" by simp
        with unseen_update_Some [where d = d and n = "?n", OF Some]
          total_cost_update_Some [where d = d and n = "?n", OF n Some True]
        show ?thesis by (simp add: search_less_def)
      next
        case False
        with r inb Some show ?thesis by simp
      qed
    qed
  qed
qed

lemma foldl_relax_measure:
  "foldl (relax g cc cur p) (pq, d) dirs = (pq', d') \<Longrightarrow>
   (pq' = pq \<and> d' = d) \<or> search_less g d' d"
proof (induction dirs arbitrary: pq d)
  case Nil
  then show ?case by simp
next
  case (Cons dir dirs)
  obtain pq1 d1 where 1: "relax g cc cur p (pq, d) dir = (pq1, d1)"
    by (cases "relax g cc cur p (pq, d) dir")
  from Cons.prems 1 have "foldl (relax g cc cur p) (pq1, d1) dirs = (pq', d')" by simp
  from Cons.IH [OF this] relax_measure [OF 1] show ?case
    by (auto intro: search_less_trans)
qed

lemma heappop_length:
  "pq \<noteq> [] \<Longrightarrow> heappop pq = (e, pq') \<Longrightarrow> e \<in> set pq \<and> length pq' < length pq"
proof -
  assume ne: "pq \<noteq> []" and h: "heappop pq = (e, pq')"
  have e: "e = Min (set pq)" and pq': "pq' = remove1 e pq"
    using h by (auto simp: heappop_def Let_def)
  have m: "e \<in> set pq" unfolding e using ne by (intro Min_in) auto
  then show ?thesis unfolding pq' by (simp add: length_remove1) (cases pq; simp)
qed

lemma search_step_unfold:
  assumes "heappop (sp_pq s) = ((cc, (cx, cy), p), pq)"
  shows "search_step g s =
     (if (cx, cy) = maze_exit g then Found p (sp_yields s @ [p])
      else if (case sp_distance s (cx, cy) of None \<Rightarrow> False | Some d \<Rightarrow> cc > d) then
        Continue (s\<lparr>sp_pq := pq, sp_yields := sp_yields s @ [p]\<rparr>)
      else
        (case cell_at (maze g) cx cy of
           None \<Rightarrow> Raise IndexError
         | Some cell \<Rightarrow>
             (case foldl (relax g cc (cx, cy) p) (pq, sp_distance s) (path_directions cell) of
                (pq', distance') \<Rightarrow>
                  Continue \<lparr>sp_pq = pq', sp_distance = distance',
                            sp_yields = sp_yields s @ [p]\<rparr>)))"
  unfolding search_step_def assms by (simp add: Let_def split: option.splits)

lemma search_step_decreases:
  assumes "search_step g s = Continue s'" and "sp_pq s \<noteq> []"
  shows "search_less g (sp_distance s') (sp_distance s)
    \<or> (sp_distance s' = sp_distance s \<and> length (sp_pq s') < length (sp_pq s))"
proof -
  obtain cc cx cy p pq where hp: "heappop (sp_pq s) = ((cc, (cx, cy), p), pq)"
    by (metis prod.exhaust)
  from heappop_length [OF assms(2) hp] have len: "length pq < length (sp_pq s)" by simp
  note st = assms(1) [unfolded search_step_unfold [OF hp]]
  show ?thesis
  proof (cases "(cx, cy) = maze_exit g")
    case True
    with st show ?thesis by simp
  next
    case ne: False
    show ?thesis
    proof (cases "case sp_distance s (cx, cy) of None \<Rightarrow> False | Some d \<Rightarrow> cc > d")
      case True
      with st ne have "s' = s\<lparr>sp_pq := pq, sp_yields := sp_yields s @ [p]\<rparr>" by simp
      with len show ?thesis by simp
    next
      case False
      with st ne obtain cell where cell: "cell_at (maze g) cx cy = Some cell"
        by (cases "cell_at (maze g) cx cy") simp_all
      let ?dirs = "path_directions cell"
      obtain pq' d' where f: "foldl (relax g cc (cx, cy) p) (pq, sp_distance s) ?dirs = (pq', d')"
        by (metis prod.exhaust)
      from st ne False cell f have
        s': "s' = \<lparr>sp_pq = pq', sp_distance = d', sp_yields = sp_yields s @ [p]\<rparr>"
        by simp
      from foldl_relax_measure [OF f] len show ?thesis by (auto simp: s')
    qed
  qed
qed

function search_loop ::
  "maze_generator \<Rightarrow> search_state \<Rightarrow> error + (coord list option \<times> coord list list)" where
  "search_loop g s =
     (if sp_pq s = [] then Inr (None, sp_yields s)
      else (case search_step g s of
              Found p ys \<Rightarrow> Inr (Some p, ys)
            | Raise e \<Rightarrow> Inl e
            | Continue s' \<Rightarrow> search_loop g s'))"
  by pat_completeness auto
termination
proof (relation "measures [\<lambda>(g, s). unseen g (sp_distance s),
                           \<lambda>(g, s). total_cost g (sp_distance s),
                           \<lambda>(g, s). length (sp_pq s)]")
  show "wf (measures [\<lambda>(g, s). unseen g (sp_distance s),
                      \<lambda>(g, s). total_cost g (sp_distance s),
                      \<lambda>(g, s). length (sp_pq s)])"
    by simp
next
  fix g s s'
  assume "sp_pq s \<noteq> []" and "search_step g s = Continue s'"
  from search_step_decreases [OF this(2,1)]
  show "((g, s'), (g, s))
      \<in> measures [\<lambda>(g, s). unseen g (sp_distance s),
                   \<lambda>(g, s). total_cost g (sp_distance s),
                   \<lambda>(g, s). length (sp_pq s)]"
    by (auto simp: search_less_def)
qed

text \<open>
  \<open>find_shortest_path_steps\<close> exhausted: the generator afterwards and the paths it
  yielded. Without a maze it prints a message and returns.
\<close>

definition search_start :: "maze_generator \<Rightarrow> search_state" where
  "search_start g =
     \<lparr>sp_pq = [(0, entry g, [entry g])], sp_distance = [entry g \<mapsto> 0], sp_yields = []\<rparr>"

definition find_shortest_path_steps ::
  "maze_generator \<Rightarrow> error + (maze_generator \<times> coord list list)" where
  "find_shortest_path_steps g =
     (if maze g = [] then Inr (g, [])
      else (case search_loop g (search_start g) of
              Inl e \<Rightarrow> Inl e
            | Inr (Some p, ys) \<Rightarrow> Inr (g\<lparr>path := p\<rparr>, ys)
            | Inr (None, ys) \<Rightarrow> Inr (g, ys)))"

definition find_shortest_path :: "maze_generator \<Rightarrow> error + maze_generator" where
  "find_shortest_path g =
     (case find_shortest_path_steps g of Inl e \<Rightarrow> Inl e | Inr (g', ys) \<Rightarrow> Inr g')"

section \<open>Export (generator.py, write_output.py)\<close>

text \<open>\<open>hex(n)\<close> and \<open>str(n)\<close> of Python, for integers.\<close>

definition digit_char :: "nat \<Rightarrow> char" where
  "digit_char d = ''0123456789abcdef'' ! d"

fun digits_of :: "nat \<Rightarrow> nat \<Rightarrow> string" where
  "digits_of b n =
     (if n < b \<or> b < 2 then [digit_char n] else digits_of b (n div b) @ [digit_char (n mod b)])"

declare digits_of.simps [simp del]

definition py_hex :: "int \<Rightarrow> string" where
  "py_hex i = (if i < 0 then ''-0x'' @ digits_of 16 (nat (- i)) else ''0x'' @ digits_of 16 (nat i))"

definition py_str :: "int \<Rightarrow> string" where
  "py_str i = (if i < 0 then ''-'' @ digits_of 10 (nat (- i)) else digits_of 10 (nat i))"

text \<open>\<open>str.upper\<close> on ASCII: a lowercase letter loses the bit of value 32.\<close>

definition upper_char :: "char \<Rightarrow> char" where
  "upper_char c =
     (if 97 \<le> (of_char c :: nat) \<and> (of_char c :: nat) \<le> 122
      then (case c of Char b0 b1 b2 b3 b4 b5 b6 b7 \<Rightarrow> Char b0 b1 b2 b3 b4 False b6 b7)
      else c)"

definition to_hex :: "cell \<Rightarrow> string" where
  "to_hex c = map upper_char (drop 2 (py_hex (walls c)))"

text \<open>\<open>sep.join(strings)\<close>\<close>

fun join :: "string \<Rightarrow> string list \<Rightarrow> string" where
  "join sep [] = []"
| "join sep [x] = x"
| "join sep (x # y # ys) = x @ sep @ join sep (y # ys)"

definition maze_to_str :: "maze_generator \<Rightarrow> string" where
  "maze_to_str g = join [CHR 0x0A] (map (\<lambda>row. concat (map to_hex row)) (maze g))"

text \<open>The loop of \<open>path_to_str\<close> over \<open>self.path[1:]\<close>, with \<open>prev\<close>.\<close>

fun path_moves :: "coord \<Rightarrow> coord list \<Rightarrow> string" where
  "path_moves prev [] = []"
| "path_moves prev ((x, y) # ps) =
     (let direction = (x - fst prev, y - snd prev) in
      (if direction = (0, -1) then ''N''
       else if direction = (0, 1) then ''S''
       else if direction = (1, 0) then ''E''
       else if direction = (-1, 0) then ''W''
       else []) @ path_moves (x, y) ps)"

definition path_to_str :: "maze_generator \<Rightarrow> string" where
  "path_to_str g = (case path g of [] \<Rightarrow> [] | prev # rest \<Rightarrow> path_moves prev rest)"

text \<open>
  \<open>write_output\<close>: \<open>can_open\<close> tells whether \<open>open(gen.output_file, 'w')\<close> succeeds. The
  result is the text written to the file and the generator afterwards.
\<close>

definition write_output ::
  "(string \<Rightarrow> bool) \<Rightarrow> maze_generator \<Rightarrow> error + (string \<times> maze_generator)" where
  "write_output can_open gen =
     (if \<not> can_open (output_file gen) then Inl OSError
      else
        Inr (maze_to_str gen @ [CHR 0x0A, CHR 0x0A]
             @ py_str (fst (entry gen)) @ '', '' @ py_str (snd (entry gen)) @ [CHR 0x0A]
             @ py_str (fst (maze_exit gen)) @ '', '' @ py_str (snd (maze_exit gen)) @ [CHR 0x0A]
             @ path_to_str gen @ [CHR 0x0A],
             gen\<lparr>maze := []\<rparr>))"

section \<open>Construction: what is accepted and what is rejected\<close>

lemma check_point_ok:
  "0 \<le> x \<Longrightarrow> x < w \<Longrightarrow> 0 \<le> y \<Longrightarrow> y < h \<Longrightarrow>
   check_point name (PTuple [PInt x, PInt y]) w h = Inr ()"
  by (simp add: check_point_def)

lemma check_point_coord:
  "check_point name p w h = Inr u \<Longrightarrow>
   0 \<le> fst (coord_of p) \<and> fst (coord_of p) < w \<and> 0 \<le> snd (coord_of p) \<and> snd (coord_of p) < h"
  by (auto simp: check_point_def split: pyval.splits list.splits if_splits)

lemma init_too_small:
  "int_of w \<le> 8 \<or> int_of h \<le> 8 \<Longrightarrow> \<exists>e. init d w h en ex out pf sa = Inl e"
  by (auto simp: init_def generate_pattern_42_def Let_def split: sum.splits)

lemma validate_inputs_output_irrelevant:
  "validate_inputs w h en ex sd (PStr s) pf = validate_inputs w h en ex sd (PStr t) pf"
  unfolding validate_inputs_def
  by (cases "check_point ''entry'' en (int_of w) (int_of h)";
      cases "check_point ''maze_exit'' ex (int_of w) (int_of h)")
     simp_all

lemma validate_inputs_not_str:
  "validate_inputs w h en ex sd (PStr s) (PBool b) = Inr () \<Longrightarrow> \<not> isinstance_str out \<Longrightarrow>
   validate_inputs w h en ex sd out pf = Inl (TypeError (Msg ''Output file name must be a string!''))"
  unfolding validate_inputs_def
  by (cases "check_point ''entry'' en (int_of w) (int_of h)";
      cases "check_point ''maze_exit'' ex (int_of w) (int_of h)")
     (simp_all split: if_splits)

section \<open>Claims about construction\<close>

text \<open>
  C6. For a 9 by 9 grid the anchor of the protected region is (1, 2), and
  \<open>_generate_pattern_42\<close> returns the list of eighteen coordinates below for entry (0, 0)
  and exit (8, 8), and raises the ValueError that the entry is inside the pattern for
  entry (1, 2). With every seed that is truthy, an integer and not negative, whether
  supplied or the default of an omitted argument, with any output name and either value
  of the perfect flag, construction with entry (0, 0) and exit (8, 8) succeeds and stores
  that region, and construction with entry (1, 2) fails with that ValueError. With a
  falsy seed (0, None, or the default 0 of an omitted argument) both constructions
  instead raise AttributeError at \<open>self.seed = seed if seed else self.seed\<close>.
\<close>

theorem pattern_42_nine_by_nine:
  "pattern_anchor 9 9 = (1, 2)
   \<and> generate_pattern_42 9 9 (0, 0) (8, 8)
       = Inr [(1,2),(1,3),(1,4),(2,4),(3,4),(3,5),(3,6),(5,2),(5,4),(5,5),
              (5,6),(6,2),(6,4),(6,6),(7,2),(7,3),(7,4),(7,6)]
   \<and> generate_pattern_42 9 9 (1, 2) (8, 8)
       = Inl (ValueError (Msg ''Entry point is inside 42 pattern!''))
   \<and> (truthy (case sa of None \<Rightarrow> PInt d | Some v \<Rightarrow> v)
       \<and> isinstance_int (case sa of None \<Rightarrow> PInt d | Some v \<Rightarrow> v)
       \<and> 0 \<le> int_of (case sa of None \<Rightarrow> PInt d | Some v \<Rightarrow> v)
      \<longrightarrow> init d (PInt 9) (PInt 9) (PTuple [PInt 0, PInt 0]) (PTuple [PInt 8, PInt 8])
             (PStr out) (PBool pf) sa
           = Inr \<lparr>width = 9, height = 9, entry = (0, 0), maze_exit = (8, 8),
                  seed = int_of (case sa of None \<Rightarrow> PInt d | Some v \<Rightarrow> v),
                  output_file = out, perfect = pf,
                  pattern_42 = [(1,2),(1,3),(1,4),(2,4),(3,4),(3,5),(3,6),(5,2),(5,4),(5,5),
                                (5,6),(6,2),(6,4),(6,6),(7,2),(7,3),(7,4),(7,6)],
                  maze = [], path = []\<rparr>
        \<and> init d (PInt 9) (PInt 9) (PTuple [PInt 1, PInt 2]) (PTuple [PInt 8, PInt 8])
             (PStr out) (PBool pf) sa
           = Inl (ValueError (Msg ''Entry point is inside 42 pattern!'')))
   \<and> (\<not> truthy (case sa of None \<Rightarrow> PInt d | Some v \<Rightarrow> v)
      \<longrightarrow> init d (PInt 9) (PInt 9) (PTuple [PInt 0, PInt 0]) (PTuple [PInt 8, PInt 8])
             (PStr out) (PBool pf) sa
           = Inl (AttributeError ''seed'')
        \<and> init d (PInt 9) (PInt 9) (PTuple [PInt 1, PInt 2]) (PTuple [PInt 8, PInt 8])
             (PStr out) (PBool pf) sa
           = Inl (AttributeError ''seed''))"
  by (simp add: init_def validate_inputs_def check_point_def generate_pattern_42_def
      pattern_anchor_def pattern_cells_def)

theorem pattern_42_nine_by_nine_witness:
  "init 0 (PInt 9) (PInt 9) (PTuple [PInt 0, PInt 0]) (PTuple [PInt 8, PInt 8])
        (PStr ''maze.txt'') (PBool True) (Some (PInt 42))
      = Inr \<lparr>width = 9, height = 9, entry = (0, 0), maze_exit = (8, 8), seed = 42,
             output_file = ''maze.txt'', perfect = True,
             pattern_42 = [(1,2),(1,3),(1,4),(2,4),(3,4),(3,5),(3,6),(5,2),(5,4),(5,5),
                           (5,6),(6,2),(6,4),(6,6),(7,2),(7,3),(7,4),(7,6)],
             maze = [], path = []\<rparr>
   \<and> init 0 (PInt 9) (PInt 9) (PTuple [PInt 1, PInt 2]) (PTuple [PInt 8, PInt 8])
        (PStr ''maze.txt'') (PBool True) (Some (PInt 42))
      = Inl (ValueError (Msg ''Entry point is inside 42 pattern!''))
   \<and> init 57 (PInt 9) (PInt 9) (PTuple [PInt 0, PInt 0]) (PTuple [PInt 8, PInt 8])
        (PStr ''maze.txt'') (PBool False) None
      = Inr \<lparr>width = 9, height = 9, entry = (0, 0), maze_exit = (8, 8), seed = 57,
             output_file = ''maze.txt'', perfect = False,
             pattern_42 = [(1,2),(1,3),(1,4),(2,4),(3,4),(3,5),(3,6),(5,2),(5,4),(5,5),
                           (5,6),(6,2),(6,4),(6,6),(7,2),(7,3),(7,4),(7,6)],
             maze = [], path = []\<rparr>
   \<and> init 57 (PInt 9) (PInt 9) (PTuple [PInt 1, PInt 2]) (PTuple [PInt 8, PInt 8])
        (PStr ''maze.txt'') (PBool True) (Some (PInt 0))
      = Inl (AttributeError ''seed'')"
  using
    pattern_42_nine_by_nine [where sa = "Some (PInt 42)" and d = 0
      and out = "''maze.txt''" and pf = True]
    pattern_42_nine_by_nine [where sa = None and d = 57
      and out = "''maze.txt''" and pf = False]
    pattern_42_nine_by_nine [where sa = "Some (PInt 0)" and d = 57
      and out = "''maze.txt''" and pf = True]
  by simp

text \<open>
  C3. With the seed 0, with the seed None, and with the seed omitted when the default drawn
  at definition time is 0, the constructor passes validation and then raises
  AttributeError at \<open>self.seed = seed if seed else self.seed\<close>: construction does not
  succeed for the non-negative seed 0, and no random seed is chosen at construction.
\<close>

theorem init_seed_zero_raises:
  "init d (PInt 9) (PInt 9) (PTuple [PInt 0, PInt 0]) (PTuple [PInt 8, PInt 8])
       (PStr ''maze.txt'') (PBool True) (Some (PInt 0)) = Inl (AttributeError ''seed'')
   \<and> init d (PInt 9) (PInt 9) (PTuple [PInt 0, PInt 0]) (PTuple [PInt 8, PInt 8])
       (PStr ''maze.txt'') (PBool True) (Some PNone) = Inl (AttributeError ''seed'')
   \<and> init 0 (PInt 9) (PInt 9) (PTuple [PInt 0, PInt 0]) (PTuple [PInt 8, PInt 8])
       (PStr ''maze.txt'') (PBool True) None = Inl (AttributeError ''seed'')"
  by (simp add: init_def validate_inputs_def check_point_def)

text \<open>
  C9, as the claim states it, fails: with the empty string as the output name and every
  other argument valid, construction succeeds.
\<close>

theorem init_empty_output_accepted:
  "init 0 (PInt 9) (PInt 9) (PTuple [PInt 0, PInt 0]) (PTuple [PInt 8, PInt 8])
       (PStr []) (PBool True) (Some (PInt 1))
   = Inr \<lparr>width = 9, height = 9, entry = (0, 0), maze_exit = (8, 8), seed = 1,
          output_file = [], perfect = True, pattern_42 = pattern_cells 1 2,
          maze = [], path = []\<rparr>"
  by (simp add: init_def validate_inputs_def check_point_def generate_pattern_42_def
      pattern_anchor_def pattern_cells_def)

text \<open>
  C9, amended. The output name is checked for its type only. Validation gives the same
  result for the empty string as for every other string, and so does the constructor, but
  for the stored name. When the checks that come before the one of the output name pass
  (validation passes with some string and some boolean flag), then with an output name
  that is not a string the constructor fails with the TypeError naming the output file,
  whatever the perfect flag is. A validation failure is the constructor's whole result:
  no generator is returned.
\<close>

theorem output_file_type_check_only:
  "validate_inputs w h en ex (case sa of None \<Rightarrow> PInt d | Some v \<Rightarrow> v) (PStr []) pf
     = validate_inputs w h en ex (case sa of None \<Rightarrow> PInt d | Some v \<Rightarrow> v) (PStr s) pf
   \<and> map_sum id (output_file_update (\<lambda>x. s)) (init d w h en ex (PStr []) pf sa)
       = init d w h en ex (PStr s) pf sa
   \<and> (validate_inputs w h en ex (case sa of None \<Rightarrow> PInt d | Some v \<Rightarrow> v) (PStr t) (PBool b) = Inr ()
        \<and> \<not> isinstance_str out
      \<longrightarrow> init d w h en ex out pf sa = Inl (TypeError (Msg ''Output file name must be a string!'')))
   \<and> (\<forall>e out'. validate_inputs w h en ex (case sa of None \<Rightarrow> PInt d | Some v \<Rightarrow> v) out' pf = Inl e
        \<longrightarrow> init d w h en ex out' pf sa = Inl e)"
proof -
  let ?sd = "case sa of None \<Rightarrow> PInt d | Some v \<Rightarrow> v"
  have a: "validate_inputs w h en ex ?sd (PStr []) pf = validate_inputs w h en ex ?sd (PStr s) pf"
    by (rule validate_inputs_output_irrelevant)
  have b: "map_sum id (output_file_update (\<lambda>x. s)) (init d w h en ex (PStr []) pf sa)
        = init d w h en ex (PStr s) pf sa"
    using a by (simp add: init_def Let_def split: sum.splits)
  have c: "validate_inputs w h en ex ?sd (PStr t) (PBool b) = Inr () \<and> \<not> isinstance_str out
      \<longrightarrow> init d w h en ex out pf sa = Inl (TypeError (Msg ''Output file name must be a string!''))"
    using validate_inputs_not_str [of w h en ex ?sd t b out pf] by (simp add: init_def)
  have e: "\<forall>e out'. validate_inputs w h en ex ?sd out' pf = Inl e
         \<longrightarrow> init d w h en ex out' pf sa = Inl e"
    by (simp add: init_def)
  from a b c e show ?thesis by blast
qed

theorem output_file_type_check_only_witness:
  "init 0 (PInt 9) (PInt 9) (PTuple [PInt 0, PInt 0]) (PTuple [PInt 8, PInt 8])
       (PInt 7) (PInt 3) (Some (PInt 1))
     = Inl (TypeError (Msg ''Output file name must be a string!''))
   \<and> init 0 (PInt 9) (PInt 9) (PTuple [PInt 0, PInt 0]) (PTuple [PInt 8, PInt 8])
       PNone (PBool True) (Some (PInt 1))
     = Inl (TypeError (Msg ''Output file name must be a string!''))"
proof -
  have h: "validate_inputs (PInt 9) (PInt 9) (PTuple [PInt 0, PInt 0]) (PTuple [PInt 8, PInt 8])
       (case Some (PInt 1) of None \<Rightarrow> PInt 0 | Some v \<Rightarrow> v) (PStr ''maze.txt'') (PBool True) = Inr ()"
    by (simp add: validate_inputs_def check_point_def)
  show ?thesis
    using h output_file_type_check_only [where w = "PInt 9" and h = "PInt 9"
        and en = "PTuple [PInt 0, PInt 0]" and ex = "PTuple [PInt 8, PInt 8]"
        and sa = "Some (PInt 1)" and d = 0 and pf = "PInt 3" and s = "[]"
        and t = "''maze.txt''" and b = True and out = "PInt 7"]
      output_file_type_check_only [where w = "PInt 9" and h = "PInt 9"
        and en = "PTuple [PInt 0, PInt 0]" and ex = "PTuple [PInt 8, PInt 8]"
        and sa = "Some (PInt 1)" and d = 0 and pf = "PBool True" and s = "[]"
        and t = "''maze.txt''" and b = True and out = PNone]
    by simp
qed

section \<open>Properties of grids\<close>

definition in_grid :: "maze_generator \<Rightarrow> int \<Rightarrow> int \<Rightarrow> bool" where
  "in_grid g x y = (0 \<le> x \<and> x < width g \<and> 0 \<le> y \<and> y < height g)"

text \<open>A grid of \<open>height\<close> rows of \<open>width\<close> cells each.\<close>

definition grid_ok :: "maze_generator \<Rightarrow> cell list list \<Rightarrow> bool" where
  "grid_ok g m = (length m = nat (height g) \<and> list_all (\<lambda>row. length row = nat (width g)) m)"

text \<open>Whether a cell has the wall named by one of the four wall constants.\<close>

definition cell_has_wall :: "cell \<Rightarrow> int \<Rightarrow> bool" where
  "cell_has_wall c wall =
     (if wall = NORTH then has_north_wall c
      else if wall = EAST then has_east_wall c
      else if wall = SOUTH then has_south_wall c
      else if wall = WEST then has_west_wall c
      else False)"

text \<open>
  Wall symmetry: for every cell A of the grid and every direction whose neighbour B is in
  the grid, A has the wall facing B exactly when B has the wall facing A.
\<close>

definition wall_symmetric :: "maze_generator \<Rightarrow> cell list list \<Rightarrow> bool" where
  "wall_symmetric g m =
     (\<forall>x\<in>{0..<width g}. \<forall>y\<in>{0..<height g}. \<forall>(dx, dy, wall, op_wall)\<in>set DIRECTIONS.
        in_grid g (x + dx) (y + dy) \<longrightarrow>
        (case (cell_at m x y, cell_at m (x + dx) (y + dy)) of
           (Some a, Some b) \<Rightarrow> cell_has_wall a wall = cell_has_wall b op_wall
         | _ \<Rightarrow> False))"

text \<open>The walls of the protected cells are all present.\<close>

definition pattern_intact :: "maze_generator \<Rightarrow> cell list list \<Rightarrow> bool" where
  "pattern_intact g m =
     (\<forall>(x, y)\<in>set (pattern_42 g).
        (case cell_at m x y of Some c \<Rightarrow> walls c = 15 | None \<Rightarrow> False))"

text \<open>Every cell holds a 4-bit wall state.\<close>

definition walls_in_range :: "cell list list \<Rightarrow> bool" where
  "walls_in_range m = list_all (list_all (\<lambda>c. 0 \<le> walls c \<and> walls c \<le> 15)) m"

subsection \<open>Reading and updating a well-formed grid\<close>

definition walls_at :: "cell list list \<Rightarrow> int \<Rightarrow> int \<Rightarrow> int" where
  "walls_at m x y = (case cell_at m x y of None \<Rightarrow> 0 | Some c \<Rightarrow> walls c)"

definition visited_at :: "cell list list \<Rightarrow> int \<Rightarrow> int \<Rightarrow> bool" where
  "visited_at m x y = (case cell_at m x y of None \<Rightarrow> False | Some c \<Rightarrow> is_visited c)"

lemma grid_ok_row: "grid_ok g m \<Longrightarrow> j < length m \<Longrightarrow> length (m ! j) = nat (width g)"
  by (simp add: grid_ok_def list_all_length)

lemma cell_at_in_grid:
  "grid_ok g m \<Longrightarrow> in_grid g x y \<Longrightarrow> cell_at m x y = Some (m ! nat y ! nat x)"
  by (simp add: cell_at_def py_index_def in_grid_def grid_ok_def list_all_length)

lemma update_cell_in_grid:
  "grid_ok g m \<Longrightarrow> in_grid g x y \<Longrightarrow>
   update_cell m x y f = Some (m[nat y := (m ! nat y)[nat x := f (m ! nat y ! nat x)]])"
  by (simp add: update_cell_def py_index_def in_grid_def grid_ok_def list_all_length)

lemma update_cell_grid_ok:
  assumes "grid_ok g m" and "update_cell m x y f = Some m'"
  shows "grid_ok g m'"
proof -
  from update_cell_SomeD [OF assms(2)] obtain j i where
    ji: "j < length m" "i < length (m ! j)" "m' = m[j := (m ! j)[i := f (m ! j ! i)]]" by blast
  show ?thesis using assms(1) ji
    by (auto simp: grid_ok_def list_all_length nth_list_update)
qed

lemma cell_at_update_cell:
  assumes "grid_ok g m" and "in_grid g x y" and "in_grid g x' y'"
    and "update_cell m x y f = Some m'"
  shows "cell_at m' x' y' =
     (if x' = x \<and> y' = y then map_option f (cell_at m x y) else cell_at m x' y')"
proof -
  have m': "m' = m[nat y := (m ! nat y)[nat x := f (m ! nat y ! nat x)]]"
    using update_cell_in_grid [OF assms(1,2), of f] assms(4) by simp
  have ok': "grid_ok g m'" by (rule update_cell_grid_ok [OF assms(1,4)])
  have b: "nat y < length m" "nat y' < length m" "nat x < length (m ! nat y)"
    "nat x' < length (m ! nat y')"
    using assms(1,2,3) by (auto simp: in_grid_def grid_ok_def list_all_length)
  have e: "nat x' = nat x \<longleftrightarrow> x' = x" "nat y' = nat y \<longleftrightarrow> y' = y"
    using assms(2,3) by (auto simp: in_grid_def)
  have 1: "cell_at m' x' y' = Some (m' ! nat y' ! nat x')"
    by (rule cell_at_in_grid [OF ok' assms(3)])
  have 2: "m' ! nat y' ! nat x' =
      (if x' = x \<and> y' = y then f (m ! nat y ! nat x) else m ! nat y' ! nat x')"
    using b e by (auto simp: m' nth_list_update)
  show ?thesis
    by (simp add: 1 2 cell_at_in_grid [OF assms(1,2)] cell_at_in_grid [OF assms(1,3)])
qed

lemma walls_at_update_cell:
  assumes "grid_ok g m" and "in_grid g x y" and "in_grid g x' y'"
    and "update_cell m x y f = Some m'"
  shows "walls_at m' x' y' =
     (if x' = x \<and> y' = y then walls (f (m ! nat y ! nat x)) else walls_at m x' y')"
  using cell_at_update_cell [OF assms] cell_at_in_grid [OF assms(1,2)]
  by (simp add: walls_at_def)

lemma visited_at_update_cell:
  assumes "grid_ok g m" and "in_grid g x y" and "in_grid g x' y'"
    and "update_cell m x y f = Some m'"
  shows "visited_at m' x' y' =
     (if x' = x \<and> y' = y then is_visited (f (m ! nat y ! nat x)) else visited_at m x' y')"
  using cell_at_update_cell [OF assms] cell_at_in_grid [OF assms(1,2)]
  by (simp add: visited_at_def)

lemma walls_at_nth: "grid_ok g m \<Longrightarrow> in_grid g x y \<Longrightarrow> walls_at m x y = walls (m ! nat y ! nat x)"
  by (simp add: walls_at_def cell_at_in_grid)

lemma visited_at_nth:
  "grid_ok g m \<Longrightarrow> in_grid g x y \<Longrightarrow> visited_at m x y = is_visited (m ! nat y ! nat x)"
  by (simp add: visited_at_def cell_at_in_grid)

subsection \<open>Wall bits\<close>

definition wall_bit :: "int \<Rightarrow> int \<Rightarrow> bool" where
  "wall_bit w b = (w AND b \<noteq> 0)"

definition is_wall :: "int \<Rightarrow> bool" where
  "is_wall b = (b = NORTH \<or> b = EAST \<or> b = SOUTH \<or> b = WEST)"

lemma has_wall_bit: "is_wall b \<Longrightarrow> cell_has_wall c b = wall_bit (walls c) b"
  by (auto simp: is_wall_def cell_has_wall_def wall_bit_def has_north_wall_def has_east_wall_def
      has_south_wall_def has_west_wall_def NORTH_def EAST_def SOUTH_def WEST_def)

lemma walls_remove_wall: "is_wall b \<Longrightarrow> walls (remove_wall c b) = walls c AND NOT b"
  by (auto simp: is_wall_def remove_wall_def remove_north_wall_def remove_east_wall_def
      remove_south_wall_def remove_west_wall_def NORTH_def EAST_def SOUTH_def WEST_def)

lemma wall_bit_remove:
  "is_wall b \<Longrightarrow> is_wall b' \<Longrightarrow> wall_bit (w AND NOT b) b' = (b' \<noteq> b \<and> wall_bit w b')"
  by (auto simp: is_wall_def wall_bit_def NORTH_def EAST_def SOUTH_def WEST_def and.assoc)

lemma walls_set_visited [simp]: "walls (set_visited v c) = walls c"
  by (simp add: set_visited_def)

lemma remove_wall_range:
  "is_wall b \<Longrightarrow> 0 \<le> w \<Longrightarrow> w \<le> 15 \<Longrightarrow> 0 \<le> w AND NOT b \<and> w AND NOT b \<le> 15"
  by (auto simp: is_wall_def NORTH_def EAST_def SOUTH_def WEST_def AND_upper1')

lemma DIRECTIONS_cases:
  assumes "(dx, dy, wall, op_wall) \<in> set DIRECTIONS"
  obtains "dx = 0" "dy = -1" "wall = NORTH" "op_wall = SOUTH"
  | "dx = 1" "dy = 0" "wall = EAST" "op_wall = WEST"
  | "dx = 0" "dy = 1" "wall = SOUTH" "op_wall = NORTH"
  | "dx = -1" "dy = 0" "wall = WEST" "op_wall = EAST"
  using assms by (auto simp: DIRECTIONS_def)

lemma DIRECTIONS_is_wall:
  "(dx, dy, wall, op_wall) \<in> set DIRECTIONS \<Longrightarrow> is_wall wall \<and> is_wall op_wall"
  by (auto simp: DIRECTIONS_def is_wall_def)

text \<open>Wall symmetry, spelled out for the two axes.\<close>

lemma wall_symmetric_iff:
  assumes "grid_ok g m"
  shows "wall_symmetric g m \<longleftrightarrow>
    (\<forall>x y. in_grid g x y \<and> in_grid g (x + 1) y \<longrightarrow>
       wall_bit (walls_at m x y) EAST = wall_bit (walls_at m (x + 1) y) WEST)
    \<and> (\<forall>x y. in_grid g x y \<and> in_grid g x (y + 1) \<longrightarrow>
       wall_bit (walls_at m x y) SOUTH = wall_bit (walls_at m x (y + 1)) NORTH)"
    (is "?L \<longleftrightarrow> ?E \<and> ?S")
proof
  assume L: ?L
  have *: "cell_has_wall (m ! nat y ! nat x) wall = cell_has_wall (m ! nat (y + dy) ! nat (x + dx)) op_wall"
    if "in_grid g x y" "in_grid g (x + dx) (y + dy)" "(dx, dy, wall, op_wall) \<in> set DIRECTIONS"
    for x y dx dy wall op_wall
  proof -
    from that(1) have "x \<in> {0..<width g}" "y \<in> {0..<height g}" by (auto simp: in_grid_def)
    with L that(2,3) have "case (cell_at m x y, cell_at m (x + dx) (y + dy)) of
           (Some a, Some b) \<Rightarrow> cell_has_wall a wall = cell_has_wall b op_wall | _ \<Rightarrow> False"
      unfolding wall_symmetric_def by fast
    then show ?thesis
      by (simp add: cell_at_in_grid [OF assms that(1)] cell_at_in_grid [OF assms that(2)])
  qed
  have ?E
    using * [of _ _ 1 0 EAST WEST] assms
    by (auto simp: DIRECTIONS_def has_wall_bit is_wall_def walls_at_nth)
  moreover have ?S
    using * [of _ _ 0 1 SOUTH NORTH] assms
    by (auto simp: DIRECTIONS_def has_wall_bit is_wall_def walls_at_nth)
  ultimately show "?E \<and> ?S" ..
next
  assume R: "?E \<and> ?S"
  have main: "cell_has_wall (m ! nat y ! nat x) wall = cell_has_wall (m ! nat (y + dy) ! nat (x + dx)) op_wall"
    if c: "in_grid g x y" and n: "in_grid g (x + dx) (y + dy)"
      and d: "(dx, dy, wall, op_wall) \<in> set DIRECTIONS"
    for x y dx dy wall op_wall
    using d
  proof (cases rule: DIRECTIONS_cases)
    case 1
    with R c n have "wall_bit (walls_at m x (y - 1)) SOUTH = wall_bit (walls_at m x (y - 1 + 1)) NORTH"
      by (metis add.commute add_0 diff_add_cancel uminus_add_conv_diff)
    with 1 c n assms show ?thesis
      by (simp add: has_wall_bit is_wall_def walls_at_nth)
  next
    case 2
    with R c n assms show ?thesis by (simp add: has_wall_bit is_wall_def walls_at_nth)
  next
    case 3
    with R c n assms show ?thesis by (simp add: has_wall_bit is_wall_def walls_at_nth)
  next
    case 4
    with R c n have "wall_bit (walls_at m (x - 1) y) EAST = wall_bit (walls_at m (x - 1 + 1) y) WEST"
      by (metis add.commute add_0 diff_add_cancel uminus_add_conv_diff)
    with 4 c n assms show ?thesis
      by (simp add: has_wall_bit is_wall_def walls_at_nth)
  qed
  have "case (cell_at m x y, cell_at m (x + dx) (y + dy)) of
           (Some a, Some b) \<Rightarrow> cell_has_wall a wall = cell_has_wall b op_wall | _ \<Rightarrow> False"
    if "x \<in> {0..<width g}" "y \<in> {0..<height g}" "(dx, dy, wall, op_wall) \<in> set DIRECTIONS"
      "in_grid g (x + dx) (y + dy)" for x y dx dy wall op_wall
  proof -
    have c: "in_grid g x y" using that(1,2) by (simp add: in_grid_def)
    show ?thesis
      using main [OF c that(4,3)]
      by (simp add: cell_at_in_grid [OF assms c] cell_at_in_grid [OF assms that(4)])
  qed
  then show ?L
    unfolding wall_symmetric_def by blast
qed


lemma walls_in_range_iff:
  assumes "grid_ok g m"
  shows "walls_in_range m \<longleftrightarrow>
    (\<forall>x y. in_grid g x y \<longrightarrow> 0 \<le> walls_at m x y \<and> walls_at m x y \<le> 15)"
proof
  assume L: "walls_in_range m"
  show "\<forall>x y. in_grid g x y \<longrightarrow> 0 \<le> walls_at m x y \<and> walls_at m x y \<le> 15"
  proof (intro allI impI)
    fix x y assume c: "in_grid g x y"
    then have "nat y < length m" "nat x < length (m ! nat y)"
      using assms by (auto simp: in_grid_def grid_ok_def list_all_length)
    with L show "0 \<le> walls_at m x y \<and> walls_at m x y \<le> 15"
      by (simp add: walls_in_range_def list_all_length walls_at_nth [OF assms c])
  qed
next
  assume R: "\<forall>x y. in_grid g x y \<longrightarrow> 0 \<le> walls_at m x y \<and> walls_at m x y \<le> 15"
  have "0 \<le> walls (m ! j ! i) \<and> walls (m ! j ! i) \<le> 15"
    if "j < length m" "i < length (m ! j)" for j i
  proof -
    have c: "in_grid g (int i) (int j)"
      using that assms by (auto simp: in_grid_def grid_ok_def list_all_length)
    from R c have "0 \<le> walls_at m (int i) (int j) \<and> walls_at m (int i) (int j) \<le> 15"
      by blast
    then show ?thesis unfolding walls_at_nth [OF assms c] by simp
  qed
  then show "walls_in_range m"
    by (simp add: walls_in_range_def list_all_length)
qed

lemma pattern_intact_iff:
  assumes "grid_ok g m" and "\<forall>(x, y)\<in>set (pattern_42 g). in_grid g x y"
  shows "pattern_intact g m \<longleftrightarrow> (\<forall>(x, y)\<in>set (pattern_42 g). walls_at m x y = 15)"
proof -
  have "(case cell_at m x y of Some c \<Rightarrow> walls c = 15 | None \<Rightarrow> False) \<longleftrightarrow> walls_at m x y = 15"
    if "(x, y) \<in> set (pattern_42 g)" for x y
  proof -
    from that assms(2) have "in_grid g x y" by fast
    then show ?thesis by (simp add: walls_at_def cell_at_in_grid [OF assms(1)])
  qed
  then show ?thesis unfolding pattern_intact_def by fast
qed

text \<open>Removing the wall pair between a cell and its neighbour in one direction.\<close>

lemma carve_pair:
  assumes ok: "grid_ok g m" and c: "in_grid g x y"
    and d: "(dx, dy, wall, op_wall) \<in> set DIRECTIONS" and n: "in_grid g (x + dx) (y + dy)"
    and m1: "update_cell m x y (\<lambda>c. remove_wall c wall) = Some m1"
    and m2: "update_cell m1 (x + dx) (y + dy) f = Some m2"
    and f: "\<And>c. walls (f c) = walls (remove_wall c op_wall)"
  shows "grid_ok g m2"
    and "\<And>a b. in_grid g a b \<Longrightarrow> walls_at m2 a b =
          (if a = x \<and> b = y then walls_at m x y AND NOT wall
           else if a = x + dx \<and> b = y + dy then walls_at m (x + dx) (y + dy) AND NOT op_wall
           else walls_at m a b)"
proof -
  have ok1: "grid_ok g m1" by (rule update_cell_grid_ok [OF ok m1])
  show "grid_ok g m2" by (rule update_cell_grid_ok [OF ok1 m2])
  have w: "is_wall wall" "is_wall op_wall" using DIRECTIONS_is_wall [OF d] by auto
  have ne: "\<not> (x + dx = x \<and> y + dy = y)" using d by (auto simp: DIRECTIONS_def)
  fix a b assume ab: "in_grid g a b"
  have 1: "walls_at m1 a b = (if a = x \<and> b = y then walls_at m x y AND NOT wall else walls_at m a b)"
    using walls_at_update_cell [OF ok c ab m1] w
    by (simp add: walls_remove_wall walls_at_nth [OF ok c])
  have n1: "walls_at m1 (x + dx) (y + dy) = walls_at m (x + dx) (y + dy)"
    using walls_at_update_cell [OF ok c n m1] ne by auto
  have 2: "walls_at m2 a b =
      (if a = x + dx \<and> b = y + dy then walls_at m1 (x + dx) (y + dy) AND NOT op_wall
       else walls_at m1 a b)"
    using walls_at_update_cell [OF ok1 n ab m2] w
    by (simp add: f walls_remove_wall walls_at_nth [OF ok1 n])
  show "walls_at m2 a b =
          (if a = x \<and> b = y then walls_at m x y AND NOT wall
           else if a = x + dx \<and> b = y + dy then walls_at m (x + dx) (y + dy) AND NOT op_wall
           else walls_at m a b)"
    using 1 n1 2 ne by auto
qed

lemma is_wall_simps [simp]: "is_wall NORTH" "is_wall EAST" "is_wall SOUTH" "is_wall WEST"
  by (simp_all add: is_wall_def)

lemma wall_consts_distinct [simp]:
  "NORTH \<noteq> EAST" "NORTH \<noteq> SOUTH" "NORTH \<noteq> WEST" "EAST \<noteq> SOUTH" "EAST \<noteq> WEST" "SOUTH \<noteq> WEST"
  "EAST \<noteq> NORTH" "SOUTH \<noteq> NORTH" "WEST \<noteq> NORTH" "SOUTH \<noteq> EAST" "WEST \<noteq> EAST" "WEST \<noteq> SOUTH"
  by (simp_all add: NORTH_def EAST_def SOUTH_def WEST_def)

lemma carve_pair_symmetric:
  assumes ok: "grid_ok g m" and c: "in_grid g x y"
    and d: "(dx, dy, wall, op_wall) \<in> set DIRECTIONS" and n: "in_grid g (x + dx) (y + dy)"
    and m1: "update_cell m x y (\<lambda>c. remove_wall c wall) = Some m1"
    and m2: "update_cell m1 (x + dx) (y + dy) f = Some m2"
    and f: "\<And>c. walls (f c) = walls (remove_wall c op_wall)"
    and sym: "wall_symmetric g m"
  shows "wall_symmetric g m2"
proof -
  note cp = carve_pair [OF ok c d n m1 m2 f]
  from sym wall_symmetric_iff [OF ok] have
    E: "\<And>x y. in_grid g x y \<Longrightarrow> in_grid g (x + 1) y \<Longrightarrow>
       wall_bit (walls_at m x y) EAST = wall_bit (walls_at m (x + 1) y) WEST"
    and S: "\<And>x y. in_grid g x y \<Longrightarrow> in_grid g x (y + 1) \<Longrightarrow>
       wall_bit (walls_at m x y) SOUTH = wall_bit (walls_at m x (y + 1)) NORTH"
    by blast+
  have E': "wall_bit (walls_at m2 a b) EAST = wall_bit (walls_at m2 (a + 1) b) WEST"
    if "in_grid g a b" "in_grid g (a + 1) b" for a b
    using d
    by (cases rule: DIRECTIONS_cases)
       (use that E [OF that] in \<open>auto simp: cp(2) wall_bit_remove add.commute\<close>)
  have S': "wall_bit (walls_at m2 a b) SOUTH = wall_bit (walls_at m2 a (b + 1)) NORTH"
    if "in_grid g a b" "in_grid g a (b + 1)" for a b
    using d
    by (cases rule: DIRECTIONS_cases)
       (use that S [OF that] in \<open>auto simp: cp(2) wall_bit_remove add.commute\<close>)
  from E' S' wall_symmetric_iff [OF cp(1)] show ?thesis by blast
qed


subsection \<open>The invariant of carving and braiding\<close>

text \<open>What construction establishes about the configuration of a generator.\<close>

definition gen_ok :: "maze_generator \<Rightarrow> bool" where
  "gen_ok g =
     (8 < width g \<and> 8 < height g
      \<and> pattern_42 g = pattern_cells (fst (pattern_anchor (width g) (height g)))
                                      (snd (pattern_anchor (width g) (height g)))
      \<and> in_maze_bounds g (fst (entry g)) (snd (entry g))
      \<and> in_maze_bounds g (fst (maze_exit g)) (snd (maze_exit g))
      \<and> entry g \<noteq> maze_exit g)"

definition carve_inv :: "maze_generator \<Rightarrow> cell list list \<Rightarrow> bool" where
  "carve_inv g m =
     (grid_ok g m \<and> wall_symmetric g m \<and> pattern_intact g m \<and> walls_in_range m)"

lemma in_maze_bounds_in_grid: "in_maze_bounds g x y \<Longrightarrow> in_grid g x y"
  by (simp add: in_maze_bounds_def in_grid_def)

lemma in_maze_bounds_not_pattern: "in_maze_bounds g x y \<Longrightarrow> (x, y) \<notin> set (pattern_42 g)"
  by (auto simp: in_maze_bounds_def is_not_42_pattern_def list_all_iff)

lemma in_maze_bounds_iff:
  "in_maze_bounds g x y \<longleftrightarrow> in_grid g x y \<and> (x, y) \<notin> set (pattern_42 g)"
  by (auto simp: in_maze_bounds_def is_not_42_pattern_def list_all_iff in_grid_def)

lemma gen_ok_pattern_in_grid:
  assumes "gen_ok g" and "(x, y) \<in> set (pattern_42 g)"
  shows "in_grid g x y"
proof -
  from assms(1) have w: "8 < width g" "8 < height g"
    and p: "pattern_42 g = pattern_cells ((width g - 7) div 2) ((height g - 5) div 2)"
    by (simp_all add: gen_ok_def pattern_anchor_def)
  have "1 \<le> (width g - 7) div 2" "(width g - 7) div 2 + 6 < width g"
    "1 \<le> (height g - 5) div 2" "(height g - 5) div 2 + 4 < height g"
    using w by simp_all
  with assms(2) show ?thesis
    unfolding p pattern_cells_def in_grid_def by auto
qed

lemma init_gen_ok:
  assumes "init d w h en ex out pf sa = Inr g"
  shows "gen_ok g \<and> maze g = [] \<and> path g = []"
proof -
  let ?sd = "case sa of None \<Rightarrow> PInt d | Some v \<Rightarrow> v"
  from assms have v: "validate_inputs w h en ex ?sd out pf = Inr ()"
    by (auto simp: init_def Let_def split: sum.splits)
  from assms v obtain pat where
    pat: "generate_pattern_42 (int_of w) (int_of h) (coord_of en) (coord_of ex) = Inr pat"
    and g: "g = \<lparr>width = int_of w, height = int_of h, entry = coord_of en,
                 maze_exit = coord_of ex, seed = int_of ?sd, output_file = str_of out,
                 perfect = bool_of pf, pattern_42 = pat, maze = [], path = []\<rparr>"
    by (auto simp: init_def Let_def split: sum.splits if_splits)
  from pat have big: "8 < int_of w" "8 < int_of h"
    and pe: "pat = pattern_cells (fst (pattern_anchor (int_of w) (int_of h)))
                                 (snd (pattern_anchor (int_of w) (int_of h)))"
    and notin: "coord_of en \<notin> set pat" "coord_of ex \<notin> set pat"
    by (auto simp: generate_pattern_42_def Let_def split: if_splits)
  from v have cp: "check_point ''entry'' en (int_of w) (int_of h) = Inr ()"
    "check_point ''maze_exit'' ex (int_of w) (int_of h) = Inr ()"
    and ne: "coord_of en \<noteq> coord_of ex"
    unfolding validate_inputs_def
    by (auto split: if_splits sum.splits)
  from check_point_coord [OF cp(1)] check_point_coord [OF cp(2)] big pe notin ne
  show ?thesis
    unfolding g gen_ok_def in_maze_bounds_iff in_grid_def
    by (simp add: prod_eq_iff)
qed

lemma carve_pair_inv:
  assumes gk: "gen_ok g" and inv: "carve_inv g m" and c: "in_maze_bounds g x y"
    and d: "(dx, dy, wall, op_wall) \<in> set DIRECTIONS"
    and n: "in_maze_bounds g (x + dx) (y + dy)"
    and m1: "update_cell m x y (\<lambda>c. remove_wall c wall) = Some m1"
    and m2: "update_cell m1 (x + dx) (y + dy) f = Some m2"
    and f: "\<And>c. walls (f c) = walls (remove_wall c op_wall)"
  shows "carve_inv g m2"
proof -
  from inv have ok: "grid_ok g m" and sym: "wall_symmetric g m" and pat: "pattern_intact g m"
    and rng: "walls_in_range m"
    by (simp_all add: carve_inv_def)
  note cg = in_maze_bounds_in_grid [OF c] and ng = in_maze_bounds_in_grid [OF n]
  note cp = carve_pair [OF ok cg d ng m1 m2 f]
  have pg: "\<forall>(x, y)\<in>set (pattern_42 g). in_grid g x y"
    using gen_ok_pattern_in_grid [OF gk] by blast
  have w: "is_wall wall" "is_wall op_wall" using DIRECTIONS_is_wall [OF d] by auto
  have "wall_symmetric g m2"
    by (rule carve_pair_symmetric [OF ok cg d ng m1 m2 f sym])
  moreover have "pattern_intact g m2"
    unfolding pattern_intact_iff [OF cp(1) pg]
  proof (clarify)
    fix a b assume ab: "(a, b) \<in> set (pattern_42 g)"
    then have "in_grid g a b" using pg by blast
    moreover have "\<not> (a = x \<and> b = y)" "\<not> (a = x + dx \<and> b = y + dy)"
      using ab in_maze_bounds_not_pattern [OF c] in_maze_bounds_not_pattern [OF n] by auto
    moreover have "walls_at m a b = 15"
      using pat ab unfolding pattern_intact_iff [OF ok pg] by blast
    ultimately show "walls_at m2 a b = 15" by (auto simp: cp(2))
  qed
  moreover have "walls_in_range m2"
    unfolding walls_in_range_iff [OF cp(1)]
  proof (intro allI impI)
    fix a b assume ab: "in_grid g a b"
    from rng walls_in_range_iff [OF ok] have
      r: "\<And>a b. in_grid g a b \<Longrightarrow> 0 \<le> walls_at m a b \<and> walls_at m a b \<le> 15" by blast
    show "0 \<le> walls_at m2 a b \<and> walls_at m2 a b \<le> 15"
      using r [OF ab] r [OF cg] r [OF ng] w
      by (auto simp: cp(2) [OF ab] remove_wall_range)
  qed
  ultimately show ?thesis using cp(1) by (simp add: carve_inv_def)
qed

subsection \<open>The fresh grid\<close>

lemma generate_grid_ok: "grid_ok g (generate_grid g)"
  by (simp add: grid_ok_def generate_grid_def list_all_iff)

lemma generate_grid_nth:
  "in_grid g x y \<Longrightarrow> generate_grid g ! nat y ! nat x = Cell"
  by (simp add: generate_grid_def in_grid_def)

lemma walls_at_generate_grid: "in_grid g x y \<Longrightarrow> walls_at (generate_grid g) x y = 15"
  by (simp add: walls_at_nth [OF generate_grid_ok] generate_grid_nth Cell_def)

lemma visited_at_generate_grid: "in_grid g x y \<Longrightarrow> \<not> visited_at (generate_grid g) x y"
  by (simp add: visited_at_nth [OF generate_grid_ok] generate_grid_nth Cell_def)

lemma wall_bit_15: "is_wall b \<Longrightarrow> wall_bit 15 b"
  by (auto simp: is_wall_def wall_bit_def NORTH_def EAST_def SOUTH_def WEST_def)

lemma gen_ok_pattern_ball: "gen_ok g \<Longrightarrow> \<forall>(x, y)\<in>set (pattern_42 g). in_grid g x y"
  using gen_ok_pattern_in_grid by blast

lemma carve_inv_iff:
  assumes "gen_ok g"
  shows "carve_inv g m \<longleftrightarrow>
    grid_ok g m
    \<and> (\<forall>x y. in_grid g x y \<and> in_grid g (x + 1) y \<longrightarrow>
         wall_bit (walls_at m x y) EAST = wall_bit (walls_at m (x + 1) y) WEST)
    \<and> (\<forall>x y. in_grid g x y \<and> in_grid g x (y + 1) \<longrightarrow>
         wall_bit (walls_at m x y) SOUTH = wall_bit (walls_at m x (y + 1)) NORTH)
    \<and> (\<forall>(x, y)\<in>set (pattern_42 g). walls_at m x y = 15)
    \<and> (\<forall>x y. in_grid g x y \<longrightarrow> 0 \<le> walls_at m x y \<and> walls_at m x y \<le> 15)"
proof (cases "grid_ok g m")
  case True
  show ?thesis
    unfolding carve_inv_def wall_symmetric_iff [OF True] walls_in_range_iff [OF True]
      pattern_intact_iff [OF True gen_ok_pattern_ball [OF assms]]
    by blast
next
  case False
  then show ?thesis by (simp add: carve_inv_def)
qed

lemma carve_inv_walls_eq:
  assumes "gen_ok g" and "carve_inv g m" and "grid_ok g m'"
    and "\<And>x y. in_grid g x y \<Longrightarrow> walls_at m' x y = walls_at m x y"
  shows "carve_inv g m'"
proof -
  have "\<forall>(x, y)\<in>set (pattern_42 g). walls_at m' x y = walls_at m x y"
    using assms(4) gen_ok_pattern_in_grid [OF assms(1)] by blast
  with assms(2,3,4) show ?thesis
    unfolding carve_inv_iff [OF assms(1)] by fastforce
qed

lemma carve_inv_generate_grid:
  assumes "gen_ok g"
  shows "carve_inv g (generate_grid g)"
  unfolding carve_inv_iff [OF assms]
  using gen_ok_pattern_in_grid [OF assms]
  by (auto simp: generate_grid_ok walls_at_generate_grid wall_bit_15)

lemma carve_inv_set_visited:
  assumes "gen_ok g" and "carve_inv g m" and "in_grid g x y"
    and "update_cell m x y (set_visited v) = Some m'"
  shows "carve_inv g m'"
proof -
  from assms(2) have ok: "grid_ok g m" by (simp add: carve_inv_def)
  have ok': "grid_ok g m'" by (rule update_cell_grid_ok [OF ok assms(4)])
  show ?thesis
    by (rule carve_inv_walls_eq [OF assms(1,2) ok'])
       (simp add: walls_at_update_cell [OF ok assms(3) _ assms(4)] walls_at_nth [OF ok assms(3)])
qed

subsection \<open>The neighbour lists\<close>

lemma dfs_neighbors_total:
  "grid_ok g m \<Longrightarrow> \<exists>r. dfs_neighbors g m x y ds = Some r"
proof (induction ds)
  case Nil
  then show ?case by simp
next
  case (Cons d ds)
  obtain dx dy wall op_wall where d: "d = (dx, dy, wall, op_wall)" by (cases d)
  from Cons obtain r where r: "dfs_neighbors g m x y ds = Some r" by blast
  show ?case
  proof (cases "in_maze_bounds g (x + dx) (y + dy)")
    case True
    from cell_at_in_grid [OF Cons.prems in_maze_bounds_in_grid [OF True]]
    show ?thesis by (simp add: d r True Let_def)
  next
    case False
    then show ?thesis by (simp add: d r Let_def)
  qed
qed

lemma dfs_neighbors_set:
  "dfs_neighbors g m x y ds = Some r \<Longrightarrow>
   set r = {(x + dx, y + dy, wall, op_wall) | dx dy wall op_wall.
              (dx, dy, wall, op_wall) \<in> set ds \<and> in_maze_bounds g (x + dx) (y + dy)
              \<and> \<not> visited_at m (x + dx) (y + dy)}"
proof (induction ds arbitrary: r)
  case Nil
  then show ?case by simp
next
  case (Cons d ds)
  obtain dx dy wall op_wall where d: "d = (dx, dy, wall, op_wall)" by (cases d)
  show ?case
  proof (cases "in_maze_bounds g (x + dx) (y + dy)")
    case True
    from Cons.prems True obtain c r' where
      c: "cell_at m (x + dx) (y + dy) = Some c" and r': "dfs_neighbors g m x y ds = Some r'"
      and r: "r = (if \<not> visited c then (x + dx, y + dy, wall, op_wall) # r' else r')"
      by (auto simp: d Let_def split: option.splits)
    have v: "visited_at m (x + dx) (y + dy) = visited c"
      by (simp add: visited_at_def c visited_def)
    show ?thesis
      unfolding r using Cons.IH [OF r'] True v by (auto simp: d)
  next
    case False
    with Cons.prems have r': "dfs_neighbors g m x y ds = Some r" by (simp add: d Let_def)
    show ?thesis using Cons.IH [OF r'] False by (auto simp: d)
  qed
qed

lemma add_to_frontier_total:
  "grid_ok g m \<Longrightarrow> \<exists>r. add_to_frontier g m x y ds = Some r"
proof (induction ds)
  case Nil
  then show ?case by simp
next
  case (Cons d ds)
  obtain dx dy wall op_wall where d: "d = (dx, dy, wall, op_wall)" by (cases d)
  from Cons obtain r where r: "add_to_frontier g m x y ds = Some r" by blast
  show ?case
  proof (cases "in_maze_bounds g (x + dx) (y + dy)")
    case True
    from cell_at_in_grid [OF Cons.prems in_maze_bounds_in_grid [OF True]]
    show ?thesis by (simp add: d r True Let_def)
  next
    case False
    then show ?thesis by (simp add: d r Let_def)
  qed
qed

lemma add_to_frontier_set:
  "add_to_frontier g m x y ds = Some r \<Longrightarrow>
   set r = {(x, y, x + dx, y + dy, wall, op_wall) | dx dy wall op_wall.
              (dx, dy, wall, op_wall) \<in> set ds \<and> in_maze_bounds g (x + dx) (y + dy)
              \<and> \<not> visited_at m (x + dx) (y + dy)}"
proof (induction ds arbitrary: r)
  case Nil
  then show ?case by simp
next
  case (Cons d ds)
  obtain dx dy wall op_wall where d: "d = (dx, dy, wall, op_wall)" by (cases d)
  show ?case
  proof (cases "in_maze_bounds g (x + dx) (y + dy)")
    case True
    from Cons.prems True obtain c r' where
      c: "cell_at m (x + dx) (y + dy) = Some c" and r': "add_to_frontier g m x y ds = Some r'"
      and r: "r = (if \<not> visited c then (x, y, x + dx, y + dy, wall, op_wall) # r' else r')"
      by (auto simp: d Let_def split: option.splits)
    have v: "visited_at m (x + dx) (y + dy) = visited c"
      by (simp add: visited_at_def c visited_def)
    show ?thesis
      unfolding r using Cons.IH [OF r'] True v by (auto simp: d)
  next
    case False
    with Cons.prems have r': "add_to_frontier g m x y ds = Some r" by (simp add: d Let_def)
    show ?thesis using Cons.IH [OF r'] False by (auto simp: d)
  qed
qed

lemma braid_neighbors_set:
  "set (braid_neighbors g x y ds) =
     {(x + dx, y + dy, wall, op_wall) | dx dy wall op_wall.
        (dx, dy, wall, op_wall) \<in> set ds \<and> in_maze_bounds g (x + dx) (y + dy)}"
proof (induction ds)
  case Nil
  then show ?case by simp
next
  case (Cons d ds)
  obtain dx dy wall op_wall where d: "d = (dx, dy, wall, op_wall)" by (cases d)
  show ?case
    using Cons.IH
    by (cases "in_maze_bounds g (x + dx) (y + dy)") (auto simp: d Let_def)
qed


subsection \<open>Depth-first carving keeps the invariant and raises nothing\<close>

definition dfs_inv :: "maze_generator \<Rightarrow> dfs_state \<Rightarrow> bool" where
  "dfs_inv g s =
     (carve_inv g (ds_maze s) \<and> (\<forall>(x, y)\<in>set (ds_stack s). in_maze_bounds g x y))"

lemma update_cell_total:
  "grid_ok g m \<Longrightarrow> in_grid g x y \<Longrightarrow> \<exists>m'. update_cell m x y f = Some m'"
  by (simp add: update_cell_in_grid)

lemma dfs_step_inv:
  assumes gk: "gen_ok g" and inv: "dfs_inv g s" and ne: "ds_stack s \<noteq> []"
  shows "\<exists>s'. dfs_step g rs s = Inr s' \<and> dfs_inv g s'"
proof -
  obtain x y where xy: "last (ds_stack s) = (x, y)" by (cases "last (ds_stack s)")
  from inv have ci: "carve_inv g (ds_maze s)"
    and st: "\<forall>(x, y)\<in>set (ds_stack s). in_maze_bounds g x y"
    by (simp_all add: dfs_inv_def)
  from ci have ok: "grid_ok g (ds_maze s)" by (simp add: carve_inv_def)
  have c: "in_maze_bounds g x y" using st ne xy last_in_set [OF ne] by fastforce
  note cg = in_maze_bounds_in_grid [OF c]
  have cur: "cell_at (ds_maze s) x y = Some (ds_maze s ! nat y ! nat x)"
    by (rule cell_at_in_grid [OF ok cg])
  from dfs_neighbors_total [OF ok] obtain nbs where
    nbs: "dfs_neighbors g (ds_maze s) x y DIRECTIONS = Some nbs" by blast
  show ?thesis
  proof (cases "nbs = []")
    case True
    have "dfs_step g rs s = Inr (s\<lparr>ds_stack := butlast (ds_stack s)\<rparr>)"
      by (simp add: dfs_step_def xy cur nbs True)
    moreover have "dfs_inv g (s\<lparr>ds_stack := butlast (ds_stack s)\<rparr>)"
      using ci st by (auto simp: dfs_inv_def dest: in_set_butlastD)
    ultimately show ?thesis by blast
  next
    case False
    let ?k = "randint0 rs (ds_draws s) (length nbs)"
    obtain nx ny wall op_wall where pick: "nbs ! ?k = (nx, ny, wall, op_wall)"
      by (cases "nbs ! ?k")
    have "(nx, ny, wall, op_wall) \<in> set nbs"
      using False pick randint0_less [of "length nbs" rs "ds_draws s"]
      by (metis length_greater_0_conv nth_mem)
    with dfs_neighbors_set [OF nbs] obtain dx dy where
      d: "(dx, dy, wall, op_wall) \<in> set DIRECTIONS" and nxy: "nx = x + dx" "ny = y + dy"
      and n: "in_maze_bounds g (x + dx) (y + dy)" by auto
    note ng = in_maze_bounds_in_grid [OF n]
    from update_cell_total [OF ok cg] obtain m1 where
      m1: "update_cell (ds_maze s) x y (\<lambda>c. remove_wall c wall) = Some m1" by blast
    have ok1: "grid_ok g m1" by (rule update_cell_grid_ok [OF ok m1])
    from update_cell_total [OF ok1 ng] obtain m2 where
      m2: "update_cell m1 (x + dx) (y + dy) (\<lambda>c. set_visited True (remove_wall c op_wall)) = Some m2"
      by blast
    have ci2: "carve_inv g m2"
      by (rule carve_pair_inv [OF gk ci c d n m1 m2]) simp
    let ?s' = "\<lparr>ds_maze = m2, ds_stack = ds_stack s @ [(nx, ny)],
               ds_events = ds_events s @ [((x, y), wall)], ds_draws = ds_draws s + 1\<rparr>"
    have "dfs_step g rs s = Inr ?s'"
      using m1 m2 by (simp add: dfs_step_def xy cur nbs False pick nxy)
    moreover have "dfs_inv g ?s'"
      using ci2 st n by (auto simp: dfs_inv_def nxy)
    ultimately show ?thesis by blast
  qed
qed

lemma dfs_loop_inv:
  "gen_ok g \<Longrightarrow> dfs_inv g s \<Longrightarrow>
   \<exists>s'. dfs_loop g rs s = Inr s' \<and> dfs_inv g s' \<and> ds_stack s' = []"
proof (induction g rs s rule: dfs_loop.induct)
  case (1 g rs s)
  show ?case
  proof (cases "ds_stack s = []")
    case True
    with "1.prems" show ?thesis by simp
  next
    case False
    from dfs_step_inv [OF "1.prems" False] obtain s1 where
      s1: "dfs_step g rs s = Inr s1" "dfs_inv g s1" by blast
    from "1.IH" [OF False s1(1) "1.prems"(1) s1(2)] obtain s' where
      "dfs_loop g rs s1 = Inr s'" "dfs_inv g s'" "ds_stack s' = []" by blast
    with False s1(1) show ?thesis by simp
  qed
qed


text \<open>
  \<open>dfs_steps\<close> advanced by \<open>n\<close> iterations of its loop after the first event: the state at
  the \<open>yield\<close> that a driver has reached then (the final state, when the loop ends
  before).
\<close>

fun dfs_iter :: "nat \<Rightarrow> maze_generator \<Rightarrow> (nat \<Rightarrow> nat) \<Rightarrow> dfs_state \<Rightarrow> error + dfs_state" where
  "dfs_iter 0 g rs s = Inr s"
| "dfs_iter (Suc n) g rs s =
     (if ds_stack s = [] then Inr s
      else (case dfs_step g rs s of Inl e \<Rightarrow> Inl e | Inr s' \<Rightarrow> dfs_iter n g rs s'))"

fun prim_iter :: "nat \<Rightarrow> maze_generator \<Rightarrow> (nat \<Rightarrow> nat) \<Rightarrow> prim_state \<Rightarrow> error + prim_state" where
  "prim_iter 0 g rs s = Inr s"
| "prim_iter (Suc n) g rs s =
     (if ps_frontier s = [] then Inr s
      else (case prim_step g rs s of Inl e \<Rightarrow> Inl e | Inr s' \<Rightarrow> prim_iter n g rs s'))"

lemma dfs_iter_inv:
  "gen_ok g \<Longrightarrow> dfs_inv g s \<Longrightarrow> \<exists>s'. dfs_iter n g rs s = Inr s' \<and> dfs_inv g s'"
proof (induction n arbitrary: s)
  case 0
  then show ?case by simp
next
  case (Suc n)
  show ?case
  proof (cases "ds_stack s = []")
    case True
    with Suc.prems show ?thesis by simp
  next
    case False
    from dfs_step_inv [OF Suc.prems False] obtain s1 where
      s1: "dfs_step g rs s = Inr s1" "dfs_inv g s1" by blast
    from Suc.IH [OF Suc.prems(1) s1(2)] False s1(1) show ?thesis by simp
  qed
qed

lemma gen_ok_entry: "gen_ok g \<Longrightarrow> in_maze_bounds g (fst (entry g)) (snd (entry g))"
  by (simp add: gen_ok_def)

lemma dfs_start_inv:
  assumes "gen_ok g"
  shows "\<exists>s0. dfs_start g = Inr s0 \<and> dfs_inv g s0"
proof -
  obtain sx sy where e: "entry g = (sx, sy)" by (cases "entry g")
  have c: "in_maze_bounds g sx sy" using gen_ok_entry [OF assms] e by simp
  note cg = in_maze_bounds_in_grid [OF c]
  from update_cell_total [OF generate_grid_ok cg] obtain m where
    m: "update_cell (generate_grid g) sx sy (set_visited True) = Some m" by blast
  have "carve_inv g m"
    by (rule carve_inv_set_visited [OF assms carve_inv_generate_grid [OF assms] cg m])
  then show ?thesis using c by (simp add: dfs_start_def e m dfs_inv_def)
qed

subsection \<open>Braiding keeps the invariant and raises nothing\<close>

lemma braid_cell_inv:
  assumes gk: "gen_ok g" and ci: "carve_inv g m" and cg: "in_grid g x y"
  shows "\<exists>m' k'. braid_cell g rs (m, k) (x, y) = Inr (m', k') \<and> carve_inv g m'"
proof (cases "is_not_42_pattern g x y")
  case False
  with ci show ?thesis by (simp add: braid_cell_def)
next
  case True
  from ci have ok: "grid_ok g m" by (simp add: carve_inv_def)
  have c: "in_maze_bounds g x y" using cg True by (simp add: in_maze_bounds_def in_grid_def)
  have cur: "cell_at m x y = Some (m ! nat y ! nat x)" by (rule cell_at_in_grid [OF ok cg])
  let ?nbs = "braid_neighbors g x y DIRECTIONS"
  show ?thesis
  proof (cases "wall_count (m ! nat y ! nat x) = 3 \<and> ?nbs \<noteq> []")
    case False
    with ci show ?thesis by (auto simp: braid_cell_def True cur Let_def)
  next
    case yes: True
    let ?k = "randint0 rs k (length ?nbs)"
    obtain nx ny wall op_wall where pick: "?nbs ! ?k = (nx, ny, wall, op_wall)"
      by (cases "?nbs ! ?k")
    have "(nx, ny, wall, op_wall) \<in> set ?nbs"
      using yes pick randint0_less [of "length ?nbs" rs k]
      by (metis length_greater_0_conv nth_mem)
    then obtain dx dy where
      d: "(dx, dy, wall, op_wall) \<in> set DIRECTIONS" and nxy: "nx = x + dx" "ny = y + dy"
      and n: "in_maze_bounds g (x + dx) (y + dy)"
      unfolding braid_neighbors_set by auto
    note ng = in_maze_bounds_in_grid [OF n]
    from update_cell_total [OF ok cg] obtain m1 where
      m1: "update_cell m x y (\<lambda>c. remove_wall c wall) = Some m1" by blast
    have ok1: "grid_ok g m1" by (rule update_cell_grid_ok [OF ok m1])
    from update_cell_total [OF ok1 ng] obtain m2 where
      m2: "update_cell m1 (x + dx) (y + dy) (\<lambda>c. remove_wall c op_wall) = Some m2" by blast
    have ci2: "carve_inv g m2"
      by (rule carve_pair_inv [OF gk ci c d n m1 m2]) simp
    have "braid_cell g rs (m, k) (x, y) = Inr (m2, k + 1)"
      using yes m1 m2 by (simp add: braid_cell_def True cur Let_def pick nxy)
    with ci2 show ?thesis by blast
  qed
qed

lemma braid_loop_inv:
  "gen_ok g \<Longrightarrow> carve_inv g m \<Longrightarrow> \<forall>(x, y)\<in>set ps. in_grid g x y \<Longrightarrow>
   \<exists>m' k'. braid_loop g rs ps (m, k) = Inr (m', k') \<and> carve_inv g m'"
proof (induction ps arbitrary: m k)
  case Nil
  then show ?case by simp
next
  case (Cons p ps)
  obtain x y where p: "p = (x, y)" by (cases p)
  from Cons.prems(3) p have cg: "in_grid g x y" by simp
  from braid_cell_inv [OF Cons.prems(1,2) cg] obtain m1 k1 where
    1: "braid_cell g rs (m, k) (x, y) = Inr (m1, k1)" "carve_inv g m1" by blast
  from Cons.IH [OF Cons.prems(1) 1(2)] Cons.prems(3) obtain m' k' where
    "braid_loop g rs ps (m1, k1) = Inr (m', k')" "carve_inv g m'" by fastforce
  with 1(1) p show ?case by simp
qed

lemma braid_coords_in_grid: "(x, y) \<in> set (braid_coords g) \<Longrightarrow> in_grid g x y"
  by (auto simp: braid_coords_def in_grid_def)

lemma carve_inv_cong:
  "width g' = width g \<Longrightarrow> height g' = height g \<Longrightarrow> pattern_42 g' = pattern_42 g \<Longrightarrow>
   carve_inv g' m = carve_inv g m"
  by (simp add: carve_inv_def grid_ok_def wall_symmetric_def pattern_intact_def in_grid_def)

lemma gen_ok_maze_update [simp]: "gen_ok (g\<lparr>maze := m\<rparr>) = gen_ok g"
  by (simp add: gen_ok_def in_maze_bounds_def is_not_42_pattern_def)

lemma braid_dead_ends_inv:
  assumes "gen_ok g" and "carve_inv g (maze g)"
  shows "\<exists>m'. braid_dead_ends g rng = Inr (g\<lparr>maze := m'\<rparr>) \<and> carve_inv g m'"
proof -
  have "\<forall>(x, y)\<in>set (braid_coords g). in_grid g x y"
    using braid_coords_in_grid by blast
  from braid_loop_inv [OF assms this, of "rng (seed g)" 0] show ?thesis
    by (auto simp: braid_dead_ends_def)
qed

text \<open>Braiding stopped after the first \<open>n\<close> cells of its two loops.\<close>

definition braid_prefix ::
  "nat \<Rightarrow> maze_generator \<Rightarrow> (int \<Rightarrow> nat \<Rightarrow> nat) \<Rightarrow> error + maze_generator" where
  "braid_prefix n g rng =
     (case braid_loop g (rng (seed g)) (take n (braid_coords g)) (maze g, 0) of
        Inl e \<Rightarrow> Inl e
      | Inr (m, k) \<Rightarrow> Inr (g\<lparr>maze := m\<rparr>))"

lemma braid_prefix_inv:
  assumes "gen_ok g" and "carve_inv g (maze g)"
  shows "\<exists>m'. braid_prefix n g rng = Inr (g\<lparr>maze := m'\<rparr>) \<and> carve_inv g m'"
proof -
  have "\<forall>(x, y)\<in>set (take n (braid_coords g)). in_grid g x y"
    using braid_coords_in_grid by (blast dest: in_set_takeD)
  from braid_loop_inv [OF assms this, of "rng (seed g)" 0] show ?thesis
    by (auto simp: braid_prefix_def)
qed

subsection \<open>Prim's algorithm keeps the invariant and raises nothing\<close>

definition edge_ok :: "maze_generator \<Rightarrow> edge \<Rightarrow> bool" where
  "edge_ok g e =
     (case e of (cx, cy, nx, ny, wall, op_wall) \<Rightarrow>
        in_maze_bounds g cx cy \<and> in_maze_bounds g nx ny
        \<and> (nx - cx, ny - cy, wall, op_wall) \<in> set DIRECTIONS)"

definition prim_inv :: "maze_generator \<Rightarrow> prim_state \<Rightarrow> bool" where
  "prim_inv g s = (carve_inv g (ps_maze s) \<and> (\<forall>e\<in>set (ps_frontier s). edge_ok g e))"

lemma add_to_frontier_edges:
  assumes "add_to_frontier g m x y DIRECTIONS = Some new" and "in_maze_bounds g x y"
  shows "\<forall>e\<in>set new. edge_ok g e"
  unfolding add_to_frontier_set [OF assms(1)] using assms(2) by (auto simp: edge_ok_def)

lemma prim_step_inv:
  assumes gk: "gen_ok g" and inv: "prim_inv g s" and ne: "ps_frontier s \<noteq> []"
  shows "\<exists>s'. prim_step g rs s = Inr s' \<and> prim_inv g s'"
proof -
  let ?idx = "randint0 rs (ps_draws s) (length (ps_frontier s))"
  let ?fr = "take ?idx (ps_frontier s) @ drop (Suc ?idx) (ps_frontier s)"
  have idx: "?idx < length (ps_frontier s)" using ne by (simp add: randint0_less)
  obtain cx cy nx ny wall op_wall where
    e: "ps_frontier s ! ?idx = (cx, cy, nx, ny, wall, op_wall)"
    by (cases "ps_frontier s ! ?idx")
  from inv have ci: "carve_inv g (ps_maze s)"
    and fr: "\<forall>e\<in>set (ps_frontier s). edge_ok g e"
    by (simp_all add: prim_inv_def)
  from ci have ok: "grid_ok g (ps_maze s)" by (simp add: carve_inv_def)
  have "(cx, cy, nx, ny, wall, op_wall) \<in> set (ps_frontier s)"
    using idx e by (metis nth_mem)
  with fr have "edge_ok g (cx, cy, nx, ny, wall, op_wall)" by blast
  then have c: "in_maze_bounds g cx cy" and n: "in_maze_bounds g nx ny"
    and d: "(nx - cx, ny - cy, wall, op_wall) \<in> set DIRECTIONS"
    by (simp_all add: edge_ok_def)
  note cg = in_maze_bounds_in_grid [OF c] and ng = in_maze_bounds_in_grid [OF n]
  have nb: "cell_at (ps_maze s) nx ny = Some (ps_maze s ! nat ny ! nat nx)"
    by (rule cell_at_in_grid [OF ok ng])
  have fr': "\<forall>e\<in>set ?fr. edge_ok g e"
    using fr by (auto dest: in_set_takeD in_set_dropD)
  show ?thesis
  proof (cases "visited (ps_maze s ! nat ny ! nat nx)")
    case True
    have "prim_step g rs s = Inr (s\<lparr>ps_frontier := ?fr, ps_draws := ps_draws s + 1\<rparr>)"
      by (simp add: prim_step_def Let_def e nb True)
    moreover have "prim_inv g (s\<lparr>ps_frontier := ?fr, ps_draws := ps_draws s + 1\<rparr>)"
      using ci fr' by (simp add: prim_inv_def)
    ultimately show ?thesis by blast
  next
    case False
    have n': "in_maze_bounds g (cx + (nx - cx)) (cy + (ny - cy))" using n by simp
    from update_cell_total [OF ok cg] obtain m1 where
      m1: "update_cell (ps_maze s) cx cy (\<lambda>c. remove_wall c wall) = Some m1" by blast
    have ok1: "grid_ok g m1" by (rule update_cell_grid_ok [OF ok m1])
    from update_cell_total [OF ok1 ng] obtain m2 where
      m2: "update_cell m1 nx ny (\<lambda>c. set_visited True (remove_wall c op_wall)) = Some m2"
      by blast
    have m2': "update_cell m1 (cx + (nx - cx)) (cy + (ny - cy))
                 (\<lambda>c. set_visited True (remove_wall c op_wall)) = Some m2"
      using m2 by simp
    have ci2: "carve_inv g m2"
      by (rule carve_pair_inv [OF gk ci c d n' m1 m2']) simp
    then have ok2: "grid_ok g m2" by (simp add: carve_inv_def)
    from add_to_frontier_total [OF ok2] obtain new where
      new: "add_to_frontier g m2 nx ny DIRECTIONS = Some new" by blast
    let ?s' = "\<lparr>ps_maze = m2, ps_frontier = ?fr @ new,
               ps_events = ps_events s @ [((cx, cy), wall)], ps_draws = ps_draws s + 1\<rparr>"
    have "prim_step g rs s = Inr ?s'"
      by (simp add: prim_step_def Let_def e nb False m1 m2 new)
    moreover have "prim_inv g ?s'"
      using ci2 fr' add_to_frontier_edges [OF new n] by (auto simp: prim_inv_def)
    ultimately show ?thesis by blast
  qed
qed

lemma prim_loop_inv:
  "gen_ok g \<Longrightarrow> prim_inv g s \<Longrightarrow>
   \<exists>s'. prim_loop g rs s = Inr s' \<and> prim_inv g s' \<and> ps_frontier s' = []"
proof (induction g rs s rule: prim_loop.induct)
  case (1 g rs s)
  show ?case
  proof (cases "ps_frontier s = []")
    case True
    with "1.prems" show ?thesis by simp
  next
    case False
    from prim_step_inv [OF "1.prems" False] obtain s1 where
      s1: "prim_step g rs s = Inr s1" "prim_inv g s1" by blast
    from "1.IH" [OF False s1(1) "1.prems"(1) s1(2)] obtain s' where
      "prim_loop g rs s1 = Inr s'" "prim_inv g s'" "ps_frontier s' = []" by blast
    with False s1(1) show ?thesis by simp
  qed
qed

lemma prim_iter_inv:
  "gen_ok g \<Longrightarrow> prim_inv g s \<Longrightarrow> \<exists>s'. prim_iter n g rs s = Inr s' \<and> prim_inv g s'"
proof (induction n arbitrary: s)
  case 0
  then show ?case by simp
next
  case (Suc n)
  show ?case
  proof (cases "ps_frontier s = []")
    case True
    with Suc.prems show ?thesis by simp
  next
    case False
    from prim_step_inv [OF Suc.prems False] obtain s1 where
      s1: "prim_step g rs s = Inr s1" "prim_inv g s1" by blast
    from Suc.IH [OF Suc.prems(1) s1(2)] False s1(1) show ?thesis by simp
  qed
qed

lemma prim_start_inv:
  assumes "gen_ok g"
  shows "\<exists>s0. prim_start g = Inr s0 \<and> prim_inv g s0"
proof -
  obtain sx sy where e: "entry g = (sx, sy)" by (cases "entry g")
  have c: "in_maze_bounds g sx sy" using gen_ok_entry [OF assms] e by simp
  note cg = in_maze_bounds_in_grid [OF c]
  from update_cell_total [OF generate_grid_ok cg] obtain m where
    m: "update_cell (generate_grid g) sx sy (set_visited True) = Some m" by blast
  have ci: "carve_inv g m"
    by (rule carve_inv_set_visited [OF assms carve_inv_generate_grid [OF assms] cg m])
  then have ok: "grid_ok g m" by (simp add: carve_inv_def)
  from add_to_frontier_total [OF ok] obtain new where
    new: "add_to_frontier g m sx sy DIRECTIONS = Some new" by blast
  show ?thesis
    using ci add_to_frontier_edges [OF new c]
    by (simp add: prim_start_def e m new prim_inv_def)
qed

section \<open>The states a generator can reach\<close>

text \<open>
  A generator is constructed by \<open>init\<close>; then a caller runs \<open>dfs\<close>, \<open>prim\<close>,
  \<open>braid_dead_ends\<close>, \<open>find_shortest_path\<close> and \<open>write_output\<close> in any order, advances
  the step-wise form of an algorithm and stops at any of its events, and assigns the
  attributes \<open>seed\<close> and \<open>perfect\<close> between runs (as the visualizer does).
\<close>

inductive reachable :: "(int \<Rightarrow> nat \<Rightarrow> nat) \<Rightarrow> maze_generator \<Rightarrow> bool"
  for rng :: "int \<Rightarrow> nat \<Rightarrow> nat" where
  r_init: "init d w h en ex out pf sa = Inr g \<Longrightarrow> reachable rng g"
| r_dfs: "reachable rng g \<Longrightarrow> dfs g rng = Inr g' \<Longrightarrow> reachable rng g'"
| r_prim: "reachable rng g \<Longrightarrow> prim g rng = Inr g' \<Longrightarrow> reachable rng g'"
| r_braid: "reachable rng g \<Longrightarrow> braid_dead_ends g rng = Inr g' \<Longrightarrow> reachable rng g'"
| r_first_event: "reachable rng g \<Longrightarrow> reachable rng (g\<lparr>maze := generate_grid g\<rparr>)"
| r_dfs_event: "reachable rng g \<Longrightarrow> dfs_start g = Inr s0 \<Longrightarrow>
      dfs_iter n g (rng (seed g)) s0 = Inr s \<Longrightarrow> reachable rng (g\<lparr>maze := ds_maze s\<rparr>)"
| r_prim_event: "reachable rng g \<Longrightarrow> prim_start g = Inr s0 \<Longrightarrow>
      prim_iter n g (rng (seed g)) s0 = Inr s \<Longrightarrow> reachable rng (g\<lparr>maze := ps_maze s\<rparr>)"
| r_braid_cell: "reachable rng g \<Longrightarrow> braid_prefix n g rng = Inr g' \<Longrightarrow> reachable rng g'"
| r_path: "reachable rng g \<Longrightarrow> find_shortest_path g = Inr g' \<Longrightarrow> reachable rng g'"
| r_write: "reachable rng g \<Longrightarrow> write_output can_open g = Inr (txt, g') \<Longrightarrow> reachable rng g'"
| r_seed: "reachable rng g \<Longrightarrow> reachable rng (g\<lparr>seed := k\<rparr>)"
| r_perfect: "reachable rng g \<Longrightarrow> reachable rng (g\<lparr>perfect := b\<rparr>)"

definition gen_inv :: "maze_generator \<Rightarrow> bool" where
  "gen_inv g = (gen_ok g \<and> (maze g = [] \<or> carve_inv g (maze g)))"

lemma carve_inv_maze_update [simp]: "carve_inv (g\<lparr>maze := m'\<rparr>) m = carve_inv g m"
  by (rule carve_inv_cong) simp_all

lemma dfs_steps_inv:
  assumes "gen_ok g"
  shows "\<exists>evs m. dfs_steps g rng = Inr (evs, g\<lparr>maze := m\<rparr>) \<and> carve_inv g m"
proof -
  from dfs_start_inv [OF assms] obtain s0 where
    s0: "dfs_start g = Inr s0" "dfs_inv g s0" by blast
  from dfs_loop_inv [OF assms s0(2), of "rng (seed g)"] obtain s where
    s: "dfs_loop g (rng (seed g)) s0 = Inr s" "dfs_inv g s" by blast
  from s(2) have ci: "carve_inv g (ds_maze s)" by (simp add: dfs_inv_def)
  show ?thesis
  proof (cases "perfect g")
    case True
    with s0(1) s(1) ci show ?thesis by (auto simp: dfs_steps_def)
  next
    case False
    from braid_dead_ends_inv [of "g\<lparr>maze := ds_maze s\<rparr>" rng] assms ci obtain m' where
      "braid_dead_ends (g\<lparr>maze := ds_maze s\<rparr>) rng = Inr (g\<lparr>maze := m'\<rparr>)" "carve_inv g m'"
      by auto
    with s0(1) s(1) False show ?thesis by (auto simp: dfs_steps_def)
  qed
qed

lemma prim_steps_inv:
  assumes "gen_ok g"
  shows "\<exists>evs m. prim_steps g rng = Inr (evs, g\<lparr>maze := m\<rparr>) \<and> carve_inv g m"
proof -
  from prim_start_inv [OF assms] obtain s0 where
    s0: "prim_start g = Inr s0" "prim_inv g s0" by blast
  from prim_loop_inv [OF assms s0(2), of "rng (seed g)"] obtain s where
    s: "prim_loop g (rng (seed g)) s0 = Inr s" "prim_inv g s" by blast
  from s(2) have ci: "carve_inv g (ps_maze s)" by (simp add: prim_inv_def)
  show ?thesis
  proof (cases "perfect g")
    case True
    with s0(1) s(1) ci show ?thesis by (auto simp: prim_steps_def)
  next
    case False
    from braid_dead_ends_inv [of "g\<lparr>maze := ps_maze s\<rparr>" rng] assms ci obtain m' where
      "braid_dead_ends (g\<lparr>maze := ps_maze s\<rparr>) rng = Inr (g\<lparr>maze := m'\<rparr>)" "carve_inv g m'"
      by auto
    with s0(1) s(1) False show ?thesis by (auto simp: prim_steps_def)
  qed
qed

lemma dfs_inv_total:
  assumes "gen_ok g"
  shows "\<exists>m. dfs g rng = Inr (g\<lparr>maze := m\<rparr>) \<and> carve_inv g m"
  using dfs_steps_inv [OF assms, of rng] by (auto simp: dfs_def)

lemma prim_inv_total:
  assumes "gen_ok g"
  shows "\<exists>m. prim g rng = Inr (g\<lparr>maze := m\<rparr>) \<and> carve_inv g m"
  using prim_steps_inv [OF assms, of rng] by (auto simp: prim_def)

lemma braid_cell_empty:
  "braid_cell g rs ([], k) p = Inr (m', k') \<Longrightarrow> m' = []"
  by (cases p) (auto simp: braid_cell_def cell_at_def py_index_def split: if_splits)

lemma braid_loop_empty:
  "braid_loop g rs ps ([], k) = Inr (m', k') \<Longrightarrow> m' = []"
proof (induction ps arbitrary: k)
  case Nil
  then show ?case by simp
next
  case (Cons p ps)
  from Cons.prems obtain m1 k1 where
    1: "braid_cell g rs ([], k) p = Inr (m1, k1)" and 2: "braid_loop g rs ps (m1, k1) = Inr (m', k')"
    by (auto split: sum.splits)
  from braid_cell_empty [OF 1] 2 Cons.IH show ?case by simp
qed

lemma gen_inv_braid_loop:
  assumes "gen_inv g" and "\<forall>(x, y)\<in>set ps. in_grid g x y"
    and "braid_loop g rs ps (maze g, 0) = Inr (m', k')"
  shows "gen_inv (g\<lparr>maze := m'\<rparr>)"
proof (cases "maze g = []")
  case True
  with assms(3) braid_loop_empty have "m' = []" by metis
  with assms(1) show ?thesis by (simp add: gen_inv_def)
next
  case False
  with assms(1) have gk: "gen_ok g" and ci: "carve_inv g (maze g)" by (simp_all add: gen_inv_def)
  from braid_loop_inv [OF gk ci assms(2), of rs 0] assms(3) have "carve_inv g m'" by auto
  with gk show ?thesis by (simp add: gen_inv_def)
qed

lemma find_shortest_path_frame:
  assumes "find_shortest_path g = Inr g'"
  shows "\<exists>p. g' = g\<lparr>path := p\<rparr>"
proof (cases "maze g = []")
  case True
  with assms have "g' = g" by (simp add: find_shortest_path_def find_shortest_path_steps_def)
  then have "g' = g\<lparr>path := path g\<rparr>" by simp
  then show ?thesis by blast
next
  case False
  show ?thesis
  proof (cases "search_loop g (search_start g)")
    case (Inl e)
    with assms False show ?thesis
      by (simp add: find_shortest_path_def find_shortest_path_steps_def)
  next
    case (Inr r)
    obtain po ys where r: "r = (po, ys)" by (cases r)
    show ?thesis
    proof (cases po)
      case None
      with assms False Inr r have "g' = g"
        by (simp add: find_shortest_path_def find_shortest_path_steps_def)
      then have "g' = g\<lparr>path := path g\<rparr>" by simp
      then show ?thesis by blast
    next
      case (Some p)
      with assms False Inr r have "g' = g\<lparr>path := p\<rparr>"
        by (simp add: find_shortest_path_def find_shortest_path_steps_def)
      then show ?thesis by blast
    qed
  qed
qed

lemma gen_ok_cong:
  "width g' = width g \<Longrightarrow> height g' = height g \<Longrightarrow> pattern_42 g' = pattern_42 g \<Longrightarrow>
   entry g' = entry g \<Longrightarrow> maze_exit g' = maze_exit g \<Longrightarrow> gen_ok g' = gen_ok g"
  by (simp add: gen_ok_def in_maze_bounds_def is_not_42_pattern_def)

lemma gen_inv_cong:
  "width g' = width g \<Longrightarrow> height g' = height g \<Longrightarrow> pattern_42 g' = pattern_42 g \<Longrightarrow>
   entry g' = entry g \<Longrightarrow> maze_exit g' = maze_exit g \<Longrightarrow> maze g' = maze g \<Longrightarrow>
   gen_inv g' = gen_inv g"
  using gen_ok_cong [of g' g] carve_inv_cong [of g' g "maze g"] by (simp add: gen_inv_def)

lemma reachable_gen_inv: "reachable rng g \<Longrightarrow> gen_inv g"
proof (induction rule: reachable.induct)
  case (r_init d w h en ex out pf sa g)
  from init_gen_ok [OF this] show ?case by (simp add: gen_inv_def)
next
  case (r_dfs g g')
  then have gk: "gen_ok g" by (simp add: gen_inv_def)
  from dfs_inv_total [OF gk, of rng] r_dfs(2) gk show ?case by (auto simp: gen_inv_def)
next
  case (r_prim g g')
  then have gk: "gen_ok g" by (simp add: gen_inv_def)
  from prim_inv_total [OF gk, of rng] r_prim(2) gk show ?case by (auto simp: gen_inv_def)
next
  case (r_braid g g')
  from r_braid(2) obtain m' k' where
    1: "braid_loop g (rng (seed g)) (braid_coords g) (maze g, 0) = Inr (m', k')"
    and 2: "g' = g\<lparr>maze := m'\<rparr>"
    by (auto simp: braid_dead_ends_def split: sum.splits)
  have "\<forall>(x, y)\<in>set (braid_coords g). in_grid g x y" using braid_coords_in_grid by blast
  from gen_inv_braid_loop [OF r_braid(3) this 1] 2 show ?case by simp
next
  case (r_first_event g)
  then have gk: "gen_ok g" by (simp add: gen_inv_def)
  with carve_inv_generate_grid [OF gk] show ?case by (simp add: gen_inv_def)
next
  case (r_dfs_event g s0 n s)
  then have gk: "gen_ok g" by (simp add: gen_inv_def)
  from dfs_start_inv [OF gk] r_dfs_event(2) have "dfs_inv g s0" by auto
  from dfs_iter_inv [OF gk this, of n "rng (seed g)"] r_dfs_event(3) have "dfs_inv g s" by auto
  with gk show ?case by (simp add: gen_inv_def dfs_inv_def)
next
  case (r_prim_event g s0 n s)
  then have gk: "gen_ok g" by (simp add: gen_inv_def)
  from prim_start_inv [OF gk] r_prim_event(2) have "prim_inv g s0" by auto
  from prim_iter_inv [OF gk this, of n "rng (seed g)"] r_prim_event(3) have "prim_inv g s" by auto
  with gk show ?case by (simp add: gen_inv_def prim_inv_def)
next
  case (r_braid_cell g n g')
  from r_braid_cell(2) obtain m' k' where
    1: "braid_loop g (rng (seed g)) (take n (braid_coords g)) (maze g, 0) = Inr (m', k')"
    and 2: "g' = g\<lparr>maze := m'\<rparr>"
    by (auto simp: braid_prefix_def split: sum.splits)
  have "\<forall>(x, y)\<in>set (take n (braid_coords g)). in_grid g x y"
    using braid_coords_in_grid by (blast dest: in_set_takeD)
  from gen_inv_braid_loop [OF r_braid_cell(3) this 1] 2 show ?case by simp
next
  case (r_path g g')
  from find_shortest_path_frame [OF r_path(2)] obtain p where g': "g' = g\<lparr>path := p\<rparr>"
    by blast
  have "gen_inv g' = gen_inv g" unfolding g' by (rule gen_inv_cong) simp_all
  with r_path(3) show ?case by simp
next
  case (r_write g can_open tx g')
  then have "g' = g\<lparr>maze := []\<rparr>" by (auto simp: write_output_def split: if_splits)
  with r_write(3) show ?case by (simp add: gen_inv_def)
next
  case (r_seed g k)
  have "gen_inv (g\<lparr>seed := k\<rparr>) = gen_inv g" by (rule gen_inv_cong) simp_all
  with r_seed show ?case by simp
next
  case (r_perfect g b)
  have "gen_inv (g\<lparr>perfect := b\<rparr>) = gen_inv g" by (rule gen_inv_cong) simp_all
  with r_perfect show ?case by simp
qed

section \<open>Decoding the hex grid\<close>

text \<open>
  Modelled from the spec: the repository has no reader of the exported grid. The spec
  describes the text as H lines of W hex digits, each digit the 4-bit wall state of one
  cell; the decoder splits the text at the newlines and reads each character as a hex
  digit (\<open>None\<close> when a character is not one).
\<close>

definition hex_value :: "char \<Rightarrow> int option" where
  "hex_value ch = map_of (zip ''0123456789ABCDEF'' [0, 1, 2, 3, 4, 5, 6, 7, 8, 9, 10, 11, 12, 13, 14, 15]) ch"

fun split_lines :: "string \<Rightarrow> string list" where
  "split_lines [] = [[]]"
| "split_lines (c # cs) =
     (if c = CHR 0x0A then [] # split_lines cs
      else (case split_lines cs of [] \<Rightarrow> [[c]] | l # ls \<Rightarrow> (c # l) # ls))"

definition decode_line :: "string \<Rightarrow> int list option" where
  "decode_line l = those (map hex_value l)"

definition decode_grid :: "string \<Rightarrow> int list list option" where
  "decode_grid s = those (map decode_line (split_lines s))"

subsection \<open>The round trip\<close>

definition hex_upper :: "int \<Rightarrow> char" where
  "hex_upper w = ''0123456789ABCDEF'' ! nat w"

lemma to_hex_in_range:
  assumes "0 \<le> walls c" and "walls c \<le> 15"
  shows "to_hex c = [hex_upper (walls c)]"
proof -
  from assms have "walls c \<in> {0, 1, 2, 3, 4, 5, 6, 7, 8, 9, 10, 11, 12, 13, 14, 15}"
    by simp arith
  then show ?thesis
    by (auto simp: to_hex_def py_hex_def digits_of.simps digit_char_def upper_char_def
        hex_upper_def)
qed

lemma hex_value_hex_upper:
  assumes "0 \<le> w" and "w \<le> 15"
  shows "hex_value (hex_upper w) = Some w \<and> hex_upper w \<noteq> CHR 0x0A"
proof -
  from assms have "w \<in> {0, 1, 2, 3, 4, 5, 6, 7, 8, 9, 10, 11, 12, 13, 14, 15}"
    by simp arith
  then show ?thesis by (auto simp: hex_value_def hex_upper_def)
qed

definition row_in_range :: "cell list \<Rightarrow> bool" where
  "row_in_range r = list_all (\<lambda>c. 0 \<le> walls c \<and> walls c \<le> 15) r"

lemma row_text:
  "row_in_range r \<Longrightarrow> concat (map to_hex r) = map (\<lambda>c. hex_upper (walls c)) r"
  by (induction r) (simp_all add: row_in_range_def to_hex_in_range)

lemma decode_line_row:
  "row_in_range r \<Longrightarrow> decode_line (map (\<lambda>c. hex_upper (walls c)) r) = Some (map walls r)"
  by (induction r) (simp_all add: row_in_range_def decode_line_def hex_value_hex_upper)

lemma hex_upper_not_newline:
  "0 \<le> w \<Longrightarrow> w \<le> 15 \<Longrightarrow> CHR 0x0A \<noteq> hex_upper w"
  using hex_value_hex_upper [of w] by metis

lemma row_no_newline:
  "row_in_range r \<Longrightarrow> CHR 0x0A \<notin> set (map (\<lambda>c. hex_upper (walls c)) r)"
  by (induction r) (auto simp: row_in_range_def hex_upper_not_newline)

lemma split_lines_nonempty: "split_lines s \<noteq> []"
  by (induction s) (auto split: list.splits)

lemma split_lines_append:
  "CHR 0x0A \<notin> set r \<Longrightarrow>
   split_lines (r @ s) = (r @ hd (split_lines s)) # tl (split_lines s)"
proof (induction r)
  case Nil
  then show ?case using split_lines_nonempty [of s] by (cases "split_lines s") simp_all
next
  case (Cons c r)
  then show ?case by auto
qed

lemma split_lines_join:
  "rows \<noteq> [] \<Longrightarrow> \<forall>r\<in>set rows. CHR 0x0A \<notin> set r \<Longrightarrow>
   split_lines (join [CHR 0x0A] rows) = rows"
proof (induction rows)
  case Nil
  then show ?case by simp
next
  case (Cons x rows)
  show ?case
  proof (cases rows)
    case Nil
    with Cons.prems show ?thesis using split_lines_append [of x "[]"] by simp
  next
    case (Cons y ys)
    with Cons.IH Cons.prems have ih: "split_lines (join [CHR 0x0A] (y # ys)) = y # ys" by simp
    from Cons.prems have "CHR 0x0A \<notin> set x" by simp
    from split_lines_append [OF this, of "CHR 0x0A # join [CHR 0x0A] (y # ys)"] ih Cons
    show ?thesis by simp
  qed
qed

lemma decode_grid_rows:
  assumes "rows \<noteq> []" and "\<forall>r\<in>set rows. row_in_range r"
  shows "decode_grid (join [CHR 0x0A] (map (\<lambda>row. concat (map to_hex row)) rows))
         = Some (map (map walls) rows)"
proof -
  let ?t = "map (\<lambda>r. map (\<lambda>c. hex_upper (walls c)) r) rows"
  have 1: "map (\<lambda>row. concat (map to_hex row)) rows = ?t"
    using assms(2) by (simp add: row_text)
  have 2: "split_lines (join [CHR 0x0A] ?t) = ?t"
    using assms row_no_newline by (intro split_lines_join) auto
  have 3: "those (map decode_line ?t) = Some (map (map walls) rows)"
    using assms(2) by (induction rows) (simp_all add: decode_line_row)
  show ?thesis by (simp only: decode_grid_def 1 2 3)
qed

section \<open>Claims about carved grids\<close>

lemma carve_inv_nonempty: "gen_ok g \<Longrightarrow> carve_inv g m \<Longrightarrow> m \<noteq> []"
  by (auto simp: gen_ok_def carve_inv_def grid_ok_def)

lemma init_nine_by_nine:
  "init 0 (PInt 9) (PInt 9) (PTuple [PInt 0, PInt 0]) (PTuple [PInt 8, PInt 8])
       (PStr ''maze.txt'') (PBool pf) (Some (PInt 42))
   = Inr \<lparr>width = 9, height = 9, entry = (0, 0), maze_exit = (8, 8), seed = 42,
          output_file = ''maze.txt'', perfect = pf, pattern_42 = pattern_cells 1 2,
          maze = [], path = []\<rparr>"
  by (simp add: init_def validate_inputs_def check_point_def generate_pattern_42_def
      pattern_anchor_def pattern_cells_def)

text \<open>The generator of the examples: 9 by 9, entry (0, 0), exit (8, 8), seed 42.\<close>

definition example_gen :: "bool \<Rightarrow> maze_generator" where
  "example_gen pf =
     \<lparr>width = 9, height = 9, entry = (0, 0), maze_exit = (8, 8), seed = 42,
      output_file = ''maze.txt'', perfect = pf, pattern_42 = pattern_cells 1 2,
      maze = [], path = []\<rparr>"

lemma example_gen_reachable: "reachable rng (example_gen pf)"
  unfolding example_gen_def by (rule r_init [OF init_nine_by_nine])

lemma reachable_dfs:
  assumes "reachable rng g"
  shows "\<exists>g'. dfs g rng = Inr g' \<and> reachable rng g' \<and> maze g' \<noteq> []"
proof -
  from reachable_gen_inv [OF assms] have gk: "gen_ok g" by (simp add: gen_inv_def)
  from dfs_inv_total [OF gk, of rng] obtain m where
    m: "dfs g rng = Inr (g\<lparr>maze := m\<rparr>)" "carve_inv g m" by blast
  from r_dfs [OF assms m(1)] carve_inv_nonempty [OF gk m(2)] m(1) show ?thesis by simp
qed

lemma reachable_prim:
  assumes "reachable rng g"
  shows "\<exists>g'. prim g rng = Inr g' \<and> reachable rng g' \<and> maze g' \<noteq> []"
proof -
  from reachable_gen_inv [OF assms] have gk: "gen_ok g" by (simp add: gen_inv_def)
  from prim_inv_total [OF gk, of rng] obtain m where
    m: "prim g rng = Inr (g\<lparr>maze := m\<rparr>)" "carve_inv g m" by blast
  from r_prim [OF assms m(1)] carve_inv_nonempty [OF gk m(2)] m(1) show ?thesis by simp
qed

text \<open>
  C1, as the claim states it, fails: a 3 by 3 generator with entry (0, 0), exit (2, 2),
  perfect mode and a valid seed cannot be constructed.
\<close>

theorem init_three_by_three_fails:
  "init 0 (PInt 3) (PInt 3) (PTuple [PInt 0, PInt 0]) (PTuple [PInt 2, PInt 2])
       (PStr ''maze.txt'') (PBool True) (Some (PInt 1))
   = Inl (ValueError (Msg ''Cannot generate 42 pattern, maze too small!''))"
  by (simp add: init_def validate_inputs_def check_point_def generate_pattern_42_def)

text \<open>
  C1, amended. A grid with width or height of at most 8 cannot be constructed: the
  constructor always fails, and when the arguments pass validation and the seed is
  truthy it fails with the ValueError of the pattern that does not fit. Every generator
  that construction and the operations on it produce is wider and higher than 8 and has
  a protected region of eighteen cells: no carving runs on a grid without one.
\<close>

theorem small_grid_not_constructible:
  "(int_of w \<le> 8 \<or> int_of h \<le> 8 \<longrightarrow>
      (\<exists>e. init d w h en ex out pf sa = Inl e)
      \<and> (validate_inputs w h en ex (case sa of None \<Rightarrow> PInt d | Some v \<Rightarrow> v) out pf = Inr ()
           \<and> truthy (case sa of None \<Rightarrow> PInt d | Some v \<Rightarrow> v)
         \<longrightarrow> init d w h en ex out pf sa
             = Inl (ValueError (Msg ''Cannot generate 42 pattern, maze too small!''))))
   \<and> (reachable rng g \<longrightarrow> 8 < width g \<and> 8 < height g \<and> length (pattern_42 g) = 18)"
proof -
  have a: "\<exists>e. init d w h en ex out pf sa = Inl e" if "int_of w \<le> 8 \<or> int_of h \<le> 8"
    using that by (rule init_too_small)
  have b: "init d w h en ex out pf sa
      = Inl (ValueError (Msg ''Cannot generate 42 pattern, maze too small!''))"
    if "int_of w \<le> 8 \<or> int_of h \<le> 8"
      and "validate_inputs w h en ex (case sa of None \<Rightarrow> PInt d | Some v \<Rightarrow> v) out pf = Inr ()"
      and "truthy (case sa of None \<Rightarrow> PInt d | Some v \<Rightarrow> v)"
  proof -
    from that(1) have "generate_pattern_42 (int_of w) (int_of h) (coord_of en) (coord_of ex)
        = Inl (ValueError (Msg ''Cannot generate 42 pattern, maze too small!''))"
      by (auto simp: generate_pattern_42_def)
    with that(2,3) show ?thesis by (simp add: init_def Let_def)
  qed
  have c: "8 < width g \<and> 8 < height g \<and> length (pattern_42 g) = 18" if "reachable rng g"
  proof -
    from reachable_gen_inv [OF that] have "gen_ok g" by (simp add: gen_inv_def)
    then show ?thesis by (simp add: gen_ok_def pattern_cells_def)
  qed
  from a b c show ?thesis by blast
qed

theorem small_grid_not_constructible_witness:
  "init 0 (PInt 8) (PInt 20) (PTuple [PInt 0, PInt 0]) (PTuple [PInt 7, PInt 19])
       (PStr ''maze.txt'') (PBool True) (Some (PInt 7))
     = Inl (ValueError (Msg ''Cannot generate 42 pattern, maze too small!''))
   \<and> 8 < width (example_gen True) \<and> length (pattern_42 (example_gen True)) = 18"
proof -
  have v: "validate_inputs (PInt 8) (PInt 20) (PTuple [PInt 0, PInt 0]) (PTuple [PInt 7, PInt 19])
      (case Some (PInt 7) of None \<Rightarrow> PInt 0 | Some v \<Rightarrow> v) (PStr ''maze.txt'') (PBool True) = Inr ()"
    by (simp add: validate_inputs_def check_point_def)
  have r: "reachable (\<lambda>sd k. k) (example_gen True)" by (rule example_gen_reachable)
  from v r small_grid_not_constructible [where w = "PInt 8" and h = "PInt 20"
      and en = "PTuple [PInt 0, PInt 0]" and ex = "PTuple [PInt 7, PInt 19]"
      and out = "PStr ''maze.txt''" and pf = "PBool True" and sa = "Some (PInt 7)" and d = 0
      and rng = "\<lambda>sd k. k" and g = "example_gen True"]
  show ?thesis by simp
qed

text \<open>
  C4. In every state that a generator reaches by construction, complete or partial runs
  of the carving algorithms and of braiding, and the other operations, a grid that is
  present is wall-symmetric: for every cell A of the grid and every direction with a
  neighbour B in the grid, A has the wall facing B exactly when B has the wall facing A.
\<close>

theorem wall_symmetry:
  assumes "reachable rng g" and "maze g \<noteq> []"
  shows "wall_symmetric g (maze g)"
  using reachable_gen_inv [OF assms(1)] assms(2) by (simp add: gen_inv_def carve_inv_def)

theorem wall_symmetry_witness:
  "\<exists>g'. dfs (example_gen False) (\<lambda>sd k. k) = Inr g' \<and> maze g' \<noteq> []
        \<and> wall_symmetric g' (maze g')"
proof -
  from reachable_dfs [OF example_gen_reachable [of "\<lambda>sd k. k" False]] obtain g' where
    g': "dfs (example_gen False) (\<lambda>sd k. k) = Inr g'" "reachable (\<lambda>sd k. k) g'" "maze g' \<noteq> []"
    by blast
  from wall_symmetry [OF g'(2,3)] g'(1,3) show ?thesis by blast
qed

text \<open>
  C5. In every such state with a grid present, every cell of the protected region has its
  initial wall state 15 (0xF); the region has eighteen cells.
\<close>

theorem protected_region_immutable:
  assumes "reachable rng g" and "maze g \<noteq> []"
  shows "pattern_intact g (maze g) \<and> length (pattern_42 g) = 18"
proof -
  from reachable_gen_inv [OF assms(1)] assms(2) have "gen_ok g" "pattern_intact g (maze g)"
    by (simp_all add: gen_inv_def carve_inv_def)
  then show ?thesis by (simp add: gen_ok_def pattern_cells_def)
qed

theorem protected_region_immutable_witness:
  "\<exists>g'. prim (example_gen False) (\<lambda>sd k. k) = Inr g' \<and> maze g' \<noteq> []
        \<and> pattern_intact g' (maze g') \<and> length (pattern_42 g') = 18"
proof -
  from reachable_prim [OF example_gen_reachable [of "\<lambda>sd k. k" False]] obtain g' where
    g': "prim (example_gen False) (\<lambda>sd k. k) = Inr g'" "reachable (\<lambda>sd k. k) g'" "maze g' \<noteq> []"
    by blast
  from protected_region_immutable [OF g'(2,3)] g'(1,3) show ?thesis by blast
qed

text \<open>
  C7. In every such state with a grid present, the text of \<open>maze_to_str\<close> decodes to the
  wall states of the cells, row by row; the text has \<open>height\<close> lines of \<open>width\<close> hex digits.
\<close>

lemma walls_in_range_rows: "walls_in_range m \<Longrightarrow> \<forall>r\<in>set m. row_in_range r"
  by (simp add: walls_in_range_def row_in_range_def list_all_iff)

theorem hex_round_trip:
  assumes "reachable rng g" and "maze g \<noteq> []"
  shows "decode_grid (maze_to_str g) = Some (map (map walls) (maze g))
    \<and> length (map (map walls) (maze g)) = nat (height g)
    \<and> list_all (\<lambda>r. length r = nat (width g)) (map (map walls) (maze g))"
proof -
  from reachable_gen_inv [OF assms(1)] assms(2) have ok: "grid_ok g (maze g)"
    and rng: "walls_in_range (maze g)"
    by (simp_all add: gen_inv_def carve_inv_def)
  from decode_grid_rows [OF assms(2) walls_in_range_rows [OF rng]]
  have "decode_grid (maze_to_str g) = Some (map (map walls) (maze g))"
    by (simp add: maze_to_str_def)
  with ok show ?thesis by (simp add: grid_ok_def list_all_iff)
qed

theorem hex_round_trip_witness:
  "\<exists>g'. dfs (example_gen True) (\<lambda>sd k. k) = Inr g' \<and> maze g' \<noteq> []
        \<and> decode_grid (maze_to_str g') = Some (map (map walls) (maze g'))"
proof -
  from reachable_dfs [OF example_gen_reachable [of "\<lambda>sd k. k" True]] obtain g' where
    g': "dfs (example_gen True) (\<lambda>sd k. k) = Inr g'" "reachable (\<lambda>sd k. k) g'" "maze g' \<noteq> []"
    by blast
  from hex_round_trip [OF g'(2,3)] g'(1,3) show ?thesis by blast
qed

text \<open>
  C10. When \<open>write_output\<close> returns, the generator is the one before with the grid
  replaced by the empty list: the entry, the exit, the path and the configuration are
  the same. A shortest-path search on it takes the branch without a maze, yields
  nothing and leaves the generator, with its path, as it is.
\<close>

theorem write_output_discards_maze:
  assumes "write_output can_open g = Inr (text_written, g')"
  shows "g' = g\<lparr>maze := []\<rparr> \<and> maze g' = [] \<and> entry g' = entry g
    \<and> maze_exit g' = maze_exit g \<and> path g' = path g
    \<and> find_shortest_path_steps g' = Inr (g', []) \<and> find_shortest_path g' = Inr g'"
  using assms
  by (auto simp: write_output_def find_shortest_path_steps_def find_shortest_path_def
      split: if_splits)

theorem write_output_discards_maze_witness:
  "\<exists>text_written.
     write_output (\<lambda>name. True) (example_gen True\<lparr>maze := generate_grid (example_gen True)\<rparr>)
       = Inr (text_written, example_gen True\<lparr>maze := generate_grid (example_gen True), maze := []\<rparr>)
     \<and> find_shortest_path
          (example_gen True\<lparr>maze := generate_grid (example_gen True), maze := []\<rparr>)
       = Inr (example_gen True\<lparr>maze := generate_grid (example_gen True), maze := []\<rparr>)"
proof -
  let ?g = "example_gen True\<lparr>maze := generate_grid (example_gen True)\<rparr>"
  obtain tw where w: "write_output (\<lambda>name. True) ?g = Inr (tw, ?g\<lparr>maze := []\<rparr>)"
    by (simp add: write_output_def)
  from write_output_discards_maze [OF w] have
    "find_shortest_path (?g\<lparr>maze := []\<rparr>) = Inr (?g\<lparr>maze := []\<rparr>)" by blast
  with w show ?thesis by blast
qed

section \<open>Correctness of the shortest-path search\<close>

text \<open>
  The steps that the search takes from a cell: to the neighbour in a direction of
  \<open>directions\<close> that is inside the grid, when the cell has no wall on that side.
\<close>

definition step_to :: "maze_generator \<Rightarrow> coord \<Rightarrow> (int \<times> int \<times> bool) set \<Rightarrow> coord \<Rightarrow> bool" where
  "step_to g c D n =
     (\<exists>(dx, dy, hw)\<in>D. n = (fst c + dx, snd c + dy) \<and> in_grid g (fst n) (snd n) \<and> \<not> hw)"

definition passable :: "maze_generator \<Rightarrow> coord \<Rightarrow> coord \<Rightarrow> bool" where
  "passable g a b =
     (case cell_at (maze g) (fst a) (snd a) of
        None \<Rightarrow> False
      | Some cell \<Rightarrow> step_to g a (set (path_directions cell)) b)"

fun pwalk :: "maze_generator \<Rightarrow> coord list \<Rightarrow> bool" where
  "pwalk g [] = True"
| "pwalk g [a] = True"
| "pwalk g (a # b # ps) = (passable g a b \<and> pwalk g (b # ps))"

lemma pwalk_snoc: "p \<noteq> [] \<Longrightarrow> pwalk g (p @ [n]) = (pwalk g p \<and> passable g (last p) n)"
  by (induction g p rule: pwalk.induct) auto

definition entry_path :: "maze_generator \<Rightarrow> coord list \<Rightarrow> coord \<Rightarrow> bool" where
  "entry_path g p c = (p \<noteq> [] \<and> hd p = entry g \<and> last p = c \<and> pwalk g p)"

lemma entry_path_snoc:
  "entry_path g p c \<Longrightarrow> passable g c n \<Longrightarrow> entry_path g (p @ [n]) n"
  by (simp add: entry_path_def pwalk_snoc)

subsection \<open>The effect of the relaxation loop\<close>

definition relaxed ::
  "maze_generator \<Rightarrow> nat \<Rightarrow> coord \<Rightarrow> coord list \<Rightarrow> (int \<times> int \<times> bool) set
     \<Rightarrow> qentry list \<times> (coord \<rightharpoonup> nat) \<Rightarrow> qentry list \<times> (coord \<rightharpoonup> nat) \<Rightarrow> bool" where
  "relaxed g k c p D st0 st =
     (set (fst st0) \<subseteq> set (fst st)
      \<and> (\<forall>e\<in>set (fst st) - set (fst st0).
           \<exists>n. e = (k + 1, n, p @ [n]) \<and> step_to g c D n \<and> (\<exists>j. snd st n = Some j \<and> j \<le> k + 1))
      \<and> (\<forall>v j. snd st0 v = Some j \<longrightarrow> (\<exists>j'. snd st v = Some j' \<and> j' \<le> j))
      \<and> (\<forall>v. snd st v \<noteq> snd st0 v \<longrightarrow> snd st v = Some (k + 1) \<and> (k + 1, v, p @ [v]) \<in> set (fst st))
      \<and> (\<forall>n. step_to g c D n \<longrightarrow> (\<exists>j. snd st n = Some j \<and> j \<le> k + 1)))"

lemma relaxed_refl: "relaxed g k c p {} st st"
  by (simp add: relaxed_def step_to_def)

lemma step_to_Un: "step_to g c (A \<union> B) n = (step_to g c A n \<or> step_to g c B n)"
  by (auto simp: step_to_def)

lemma relaxed_trans:
  assumes 1: "relaxed g k c p A st0 st1" and 2: "relaxed g k c p B st1 st2"
  shows "relaxed g k c p (A \<union> B) st0 st2"
  unfolding relaxed_def
proof (intro conjI)
  show "set (fst st0) \<subseteq> set (fst st2)"
    using 1 2 unfolding relaxed_def by blast
  show "\<forall>v j. snd st0 v = Some j \<longrightarrow> (\<exists>j'. snd st2 v = Some j' \<and> j' \<le> j)"
    using 1 2 unfolding relaxed_def by (meson order_trans)
  show "\<forall>v. snd st2 v \<noteq> snd st0 v \<longrightarrow>
          snd st2 v = Some (k + 1) \<and> (k + 1, v, p @ [v]) \<in> set (fst st2)"
  proof (intro allI impI)
    fix v assume d: "snd st2 v \<noteq> snd st0 v"
    show "snd st2 v = Some (k + 1) \<and> (k + 1, v, p @ [v]) \<in> set (fst st2)"
    proof (cases "snd st2 v = snd st1 v")
      case True
      with d have "snd st1 v \<noteq> snd st0 v" by simp
      with 1 have "snd st1 v = Some (k + 1)" "(k + 1, v, p @ [v]) \<in> set (fst st1)"
        unfolding relaxed_def by blast+
      with True 2 show ?thesis unfolding relaxed_def by auto
    next
      case False
      with 2 show ?thesis unfolding relaxed_def by blast
    qed
  qed
  show "\<forall>n. step_to g c (A \<union> B) n \<longrightarrow> (\<exists>j. snd st2 n = Some j \<and> j \<le> k + 1)"
  proof (intro allI impI)
    fix n assume "step_to g c (A \<union> B) n"
    then consider "step_to g c A n" | "step_to g c B n" by (auto simp: step_to_Un)
    then show "\<exists>j. snd st2 n = Some j \<and> j \<le> k + 1"
    proof cases
      case 1
      with \<open>relaxed g k c p A st0 st1\<close> obtain j where "snd st1 n = Some j" "j \<le> k + 1"
        unfolding relaxed_def by blast
      with 2 show ?thesis unfolding relaxed_def by (meson order_trans)
    next
      case 2
      with \<open>relaxed g k c p B st1 st2\<close> show ?thesis unfolding relaxed_def by blast
    qed
  qed
  show "\<forall>e\<in>set (fst st2) - set (fst st0).
          \<exists>n. e = (k + 1, n, p @ [n]) \<and> step_to g c (A \<union> B) n
            \<and> (\<exists>j. snd st2 n = Some j \<and> j \<le> k + 1)"
  proof
    fix e assume e: "e \<in> set (fst st2) - set (fst st0)"
    show "\<exists>n. e = (k + 1, n, p @ [n]) \<and> step_to g c (A \<union> B) n
            \<and> (\<exists>j. snd st2 n = Some j \<and> j \<le> k + 1)"
    proof (cases "e \<in> set (fst st1)")
      case True
      with e 1 obtain n j where n: "e = (k + 1, n, p @ [n])" "step_to g c A n"
        "snd st1 n = Some j" "j \<le> k + 1"
        unfolding relaxed_def by blast
      from n(3,4) 2 obtain j' where "snd st2 n = Some j'" "j' \<le> k + 1"
        unfolding relaxed_def by (meson order_trans)
      with n(1,2) show ?thesis unfolding step_to_Un by blast
    next
      case False
      with e have "e \<in> set (fst st2) - set (fst st1)" by simp
      with 2 obtain n where "e = (k + 1, n, p @ [n])" "step_to g c B n"
        "\<exists>j. snd st2 n = Some j \<and> j \<le> k + 1"
        unfolding relaxed_def by blast
      then show ?thesis unfolding step_to_Un by blast
    qed
  qed
qed

lemma relax_push:
  assumes "0 \<le> cx + dx \<and> cx + dx < width g \<and> 0 \<le> cy + dy \<and> cy + dy < height g \<and> \<not> hw"
    and "case d (cx + dx, cy + dy) of None \<Rightarrow> True | Some j \<Rightarrow> k + 1 < j"
  shows "relax g k (cx, cy) p (pq, d) (dx, dy, hw)
    = (heappush pq (k + 1, (cx + dx, cy + dy), p @ [(cx + dx, cy + dy)]),
       d((cx + dx, cy + dy) \<mapsto> k + 1))"
  using assms by (simp add: relax_def Let_def split: option.splits)

lemma relax_skip:
  assumes "\<not> (0 \<le> cx + dx \<and> cx + dx < width g \<and> 0 \<le> cy + dy \<and> cy + dy < height g \<and> \<not> hw)
    \<or> \<not> (case d (cx + dx, cy + dy) of None \<Rightarrow> True | Some j \<Rightarrow> k + 1 < j)"
  shows "relax g k (cx, cy) p (pq, d) (dx, dy, hw) = (pq, d)"
  using assms by (auto simp: relax_def Let_def split: option.splits)

lemma relax_relaxed:
  "relaxed g k c p {dir} (pq, d) (relax g k c p (pq, d) dir)"
proof -
  obtain dx dy hw where dir: "dir = (dx, dy, hw)" by (cases dir)
  obtain cx cy where c: "c = (cx, cy)" by (cases c)
  let ?n = "(cx + dx, cy + dy)"
  have st: "step_to g c {dir} n \<longleftrightarrow> n = ?n \<and> in_grid g (cx + dx) (cy + dy) \<and> \<not> hw" for n
    by (auto simp: step_to_def dir c)
  show ?thesis
  proof (cases "0 \<le> cx + dx \<and> cx + dx < width g \<and> 0 \<le> cy + dy \<and> cy + dy < height g \<and> \<not> hw")
    case False
    then have "relax g k c p (pq, d) dir = (pq, d)"
      unfolding dir c by (intro relax_skip) simp
    moreover from False have "\<not> step_to g c {dir} n" for n by (auto simp: st in_grid_def)
    ultimately show ?thesis by (simp add: relaxed_def)
  next
    case inb: True
    then have ig: "in_grid g (cx + dx) (cy + dy)" "\<not> hw" by (simp_all add: in_grid_def)
    show ?thesis
    proof (cases "case d ?n of None \<Rightarrow> True | Some j \<Rightarrow> k + 1 < j")
      case True
      with inb have r: "relax g k c p (pq, d) dir
          = (heappush pq (k + 1, ?n, p @ [?n]), d(?n \<mapsto> k + 1))"
        unfolding dir c by (intro relax_push)
      show ?thesis
        unfolding r relaxed_def using True ig
        by (auto simp: st heappush_def split: option.splits)
    next
      case False
      then have r: "relax g k c p (pq, d) dir = (pq, d)"
        unfolding dir c by (intro relax_skip) simp
      from False obtain j where "d ?n = Some j" "j \<le> k + 1"
        by (auto split: option.splits)
      then show ?thesis unfolding r relaxed_def by (auto simp: st)
    qed
  qed
qed

lemma foldl_relax_relaxed:
  "relaxed g k c p (set dirs) st (foldl (relax g k c p) st dirs)"
proof (induction dirs arbitrary: st)
  case Nil
  show ?case by (simp add: relaxed_refl)
next
  case (Cons dir dirs)
  obtain pq d where st: "st = (pq, d)" by (cases st)
  have "relaxed g k c p ({dir} \<union> set dirs) st (foldl (relax g k c p) (relax g k c p st dir) dirs)"
    by (rule relaxed_trans [OF _ Cons.IH]) (simp add: st relax_relaxed)
  then show ?case by simp
qed


subsection \<open>The invariant of the search\<close>

definition qentry_ok :: "maze_generator \<Rightarrow> (coord \<rightharpoonup> nat) \<Rightarrow> qentry \<Rightarrow> bool" where
  "qentry_ok g dist e =
     (case e of (k, c, p) \<Rightarrow>
        entry_path g p c \<and> length p = k + 1 \<and> in_grid g (fst c) (snd c)
        \<and> (\<exists>j. dist c = Some j \<and> j \<le> k))"

definition settled ::
  "maze_generator \<Rightarrow> qentry list \<Rightarrow> (coord \<rightharpoonup> nat) \<Rightarrow> coord \<Rightarrow> nat \<Rightarrow> bool" where
  "settled g pq dist c j =
     ((\<exists>p. (j, c, p) \<in> set pq)
      \<or> (c \<noteq> maze_exit g \<and> (\<forall>n. passable g c n \<longrightarrow> (\<exists>j'. dist n = Some j' \<and> j' \<le> j + 1))))"

definition search_inv :: "maze_generator \<Rightarrow> search_state \<Rightarrow> bool" where
  "search_inv g s =
     ((\<forall>e\<in>set (sp_pq s). qentry_ok g (sp_distance s) e)
      \<and> (\<forall>c j. sp_distance s c = Some j \<longrightarrow> settled g (sp_pq s) (sp_distance s) c j)
      \<and> sp_distance s (entry g) = Some 0
      \<and> (\<forall>y\<in>set (sp_yields s). y \<noteq> [] \<and> last y \<noteq> maze_exit g))"

lemma search_start_inv:
  assumes "in_grid g (fst (entry g)) (snd (entry g))"
  shows "search_inv g (search_start g)"
  using assms
  by (auto simp: search_inv_def search_start_def qentry_ok_def entry_path_def settled_def
      split: if_splits)

lemma heappop_min:
  assumes "pq \<noteq> []" and "heappop pq = (e, pq')"
  shows "e \<in> set pq" and "pq' = remove1 e pq" and "\<And>e'. e' \<in> set pq \<Longrightarrow> fst e \<le> fst e'"
proof -
  have e: "e = Min (set pq)" and pq': "pq' = remove1 e pq"
    using assms(2) by (auto simp: heappop_def Let_def)
  show "e \<in> set pq" unfolding e using assms(1) by (intro Min_in) auto
  show "pq' = remove1 e pq" by (rule pq')
  fix e' assume "e' \<in> set pq"
  then have "e \<le> e'" unfolding e by (intro Min_le) auto
  then show "fst e \<le> fst e'" by (auto simp: less_eq_prod_def)
qed

text \<open>
  Every cell at the end of a walk from the entry that has fewer edges than the least cost
  in the queue has a known cost, at most the number of edges of the walk.
\<close>

lemma reach_bound:
  assumes st: "\<forall>c j. dist c = Some j \<longrightarrow> settled g pq dist c j"
    and e0: "dist (entry g) = Some 0"
    and mn: "\<forall>e\<in>set pq. K \<le> fst e"
  shows "entry_path g q v \<Longrightarrow> length q \<le> K \<Longrightarrow> \<exists>j. dist v = Some j \<and> j < length q"
proof (induction q arbitrary: v rule: rev_induct)
  case Nil
  then show ?case by (simp add: entry_path_def)
next
  case (snoc x q)
  from snoc.prems(1) have v: "x = v" by (simp add: entry_path_def)
  show ?case
  proof (cases "q = []")
    case True
    with snoc.prems(1) have "v = entry g" by (auto simp: entry_path_def)
    with e0 True show ?thesis by simp
  next
    case False
    with snoc.prems(1) have ep: "entry_path g q (last q)" and pa: "passable g (last q) v"
      by (simp_all add: entry_path_def pwalk_snoc v)
    from snoc.prems(2) have len: "length q < K" by simp
    from snoc.IH [OF ep] len obtain ju where ju: "dist (last q) = Some ju" "ju < length q"
      by auto
    have "\<not> (\<exists>p. (ju, last q, p) \<in> set pq)"
    proof
      assume "\<exists>p. (ju, last q, p) \<in> set pq"
      then obtain p where "(ju, last q, p) \<in> set pq" by blast
      with mn have "K \<le> ju" by fastforce
      with ju(2) len show False by simp
    qed
    moreover from st ju(1) have "settled g pq dist (last q) ju" by blast
    ultimately obtain j' where "dist v = Some j'" "j' \<le> ju + 1"
      using pa unfolding settled_def by blast
    with ju(2) show ?thesis by auto
  qed
qed

lemma no_shorter_path:
  assumes st: "\<forall>c j. dist c = Some j \<longrightarrow> settled g pq dist c j"
    and e0: "dist (entry g) = Some 0"
    and mn: "\<forall>e\<in>set pq. K \<le> fst e"
    and q: "entry_path g q (maze_exit g)"
  shows "K < length q"
proof (rule ccontr)
  assume "\<not> K < length q"
  then have le: "length q \<le> K" by simp
  from reach_bound [OF st e0 mn q le] obtain j where
    j: "dist (maze_exit g) = Some j" "j < length q" by blast
  from st j(1) have "settled g pq dist (maze_exit g) j" by blast
  then obtain p where "(j, maze_exit g, p) \<in> set pq"
    unfolding settled_def by blast
  with mn have "K \<le> j" by fastforce
  with j(2) le show False by simp
qed

lemma passable_step_to:
  "cell_at (maze g) (fst c) (snd c) = Some cell \<Longrightarrow>
   passable g c n = step_to g c (set (path_directions cell)) n"
  by (simp add: passable_def)

lemma step_to_in_grid: "step_to g c D n \<Longrightarrow> in_grid g (fst n) (snd n)"
  by (auto simp: step_to_def)

lemma search_step_inv:
  assumes inv: "search_inv g s" and ne: "sp_pq s \<noteq> []" and ok: "grid_ok g (maze g)"
  shows "case search_step g s of
           Found p ys \<Rightarrow>
             entry_path g p (maze_exit g) \<and> ys = sp_yields s @ [p]
             \<and> (\<forall>q. entry_path g q (maze_exit g) \<longrightarrow> length p \<le> length q)
         | Continue s' \<Rightarrow> search_inv g s'
         | Raise e \<Rightarrow> False"
proof -
  obtain k cx cy p pq where hp: "heappop (sp_pq s) = ((k, (cx, cy), p), pq)"
    by (metis prod.exhaust)
  note hm = heappop_min [OF ne hp]
  let ?e = "(k, (cx, cy), p)"
  let ?c = "(cx, cy)"
  from inv have qok: "\<forall>e\<in>set (sp_pq s). qentry_ok g (sp_distance s) e"
    and st: "\<forall>c j. sp_distance s c = Some j \<longrightarrow> settled g (sp_pq s) (sp_distance s) c j"
    and e0: "sp_distance s (entry g) = Some 0"
    and ys: "\<forall>y\<in>set (sp_yields s). y \<noteq> [] \<and> last y \<noteq> maze_exit g"
    by (simp_all add: search_inv_def)
  from qok hm(1) have "qentry_ok g (sp_distance s) ?e" by blast
  then have ep: "entry_path g p ?c" and len: "length p = k + 1" and cg: "in_grid g cx cy"
    and dc: "\<exists>j. sp_distance s ?c = Some j \<and> j \<le> k"
    by (simp_all add: qentry_ok_def)
  have mn: "\<forall>e\<in>set (sp_pq s). k \<le> fst e" using hm(3) by fastforce
  note su = search_step_unfold [OF hp, of g]
  show ?thesis
  proof (cases "?c = maze_exit g")
    case True
    have "length p \<le> length q" if "entry_path g q (maze_exit g)" for q
      using no_shorter_path [OF st e0 mn that] len by simp
    with ep True show ?thesis by (simp add: su)
  next
    case nx: False
    from dc obtain j where j: "sp_distance s ?c = Some j" "j \<le> k" by blast
    have yok: "\<forall>y\<in>set (sp_yields s @ [p]). y \<noteq> [] \<and> last y \<noteq> maze_exit g"
      using ys ep nx by (auto simp: entry_path_def)
    show ?thesis
    proof (cases "j < k")
      case stale: True
      let ?s' = "s\<lparr>sp_pq := pq, sp_yields := sp_yields s @ [p]\<rparr>"
      have step: "search_step g s = Continue ?s'" using nx j stale by (simp add: su)
      have sub: "set pq \<subseteq> set (sp_pq s)" unfolding hm(2) by (rule set_remove1_subset)
      have "settled g pq (sp_distance s) c' j'" if d: "sp_distance s c' = Some j'" for c' j'
      proof -
        from st d have old: "settled g (sp_pq s) (sp_distance s) c' j'" by blast
        show ?thesis
        proof (cases "\<exists>p'. (j', c', p') \<in> set (sp_pq s)")
          case True
          then obtain p' where p': "(j', c', p') \<in> set (sp_pq s)" by blast
          have "(j', c', p') \<noteq> ?e" using d j stale by auto
          with p' have "(j', c', p') \<in> set pq" unfolding hm(2) by simp
          then show ?thesis unfolding settled_def by blast
        next
          case False
          with old show ?thesis unfolding settled_def by blast
        qed
      qed
      with qok sub e0 yok have "search_inv g ?s'"
        by (auto simp: search_inv_def)
      with step show ?thesis by simp
    next
      case False
      with j have jk: "j = k" by simp
      have cell: "cell_at (maze g) cx cy = Some (maze g ! nat cy ! nat cx)"
        by (rule cell_at_in_grid [OF ok cg])
      let ?cell = "maze g ! nat cy ! nat cx"
      let ?D = "set (path_directions ?cell)"
      obtain pq2 d2 where f:
        "foldl (relax g k ?c p) (pq, sp_distance s) (path_directions ?cell) = (pq2, d2)"
        by (metis prod.exhaust)
      let ?s' = "\<lparr>sp_pq = pq2, sp_distance = d2, sp_yields = sp_yields s @ [p]\<rparr>"
      have step: "search_step g s = Continue ?s'"
        using nx j jk cell f by (simp add: su)
      have pas: "passable g ?c n = step_to g ?c ?D n" for n
        using passable_step_to [of g ?c ?cell n] cell by simp
      from foldl_relax_relaxed [of g k ?c p "path_directions ?cell" "(pq, sp_distance s)"] f
      have rl: "relaxed g k ?c p ?D (pq, sp_distance s) (pq2, d2)" by simp
      then have r1: "set pq \<subseteq> set pq2"
        and r2: "\<forall>e\<in>set pq2 - set pq. \<exists>n. e = (k + 1, n, p @ [n]) \<and> step_to g ?c ?D n
                   \<and> (\<exists>j. d2 n = Some j \<and> j \<le> k + 1)"
        and r3: "\<forall>v j. sp_distance s v = Some j \<longrightarrow> (\<exists>j'. d2 v = Some j' \<and> j' \<le> j)"
        and r4: "\<forall>v. d2 v \<noteq> sp_distance s v \<longrightarrow>
                   d2 v = Some (k + 1) \<and> (k + 1, v, p @ [v]) \<in> set pq2"
        and r5: "\<forall>n. step_to g ?c ?D n \<longrightarrow> (\<exists>j. d2 n = Some j \<and> j \<le> k + 1)"
        unfolding relaxed_def by simp_all
      have sub: "set pq \<subseteq> set (sp_pq s)" unfolding hm(2) by (rule set_remove1_subset)
      have q2: "qentry_ok g d2 e" if e: "e \<in> set pq2" for e
      proof (cases "e \<in> set pq")
        case True
        with sub qok have old: "qentry_ok g (sp_distance s) e" by blast
        obtain k' c' p' where e': "e = (k', c', p')" by (cases e)
        from old obtain j' where "sp_distance s c' = Some j'" "j' \<le> k'"
          by (auto simp: qentry_ok_def e')
        with r3 obtain j'' where "d2 c' = Some j''" "j'' \<le> k'" by (meson order_trans)
        with old show ?thesis by (auto simp: qentry_ok_def e')
      next
        case False
        with e r2 obtain n where n: "e = (k + 1, n, p @ [n])" "step_to g ?c ?D n"
          "\<exists>j. d2 n = Some j \<and> j \<le> k + 1" by blast
        from n(2) have "passable g ?c n" by (simp add: pas)
        from entry_path_snoc [OF ep this] n(3) step_to_in_grid [OF n(2)] len
        show ?thesis by (simp add: qentry_ok_def n(1))
      qed
      have s2: "settled g pq2 d2 v jv" if d: "d2 v = Some jv" for v jv
      proof (cases "d2 v = sp_distance s v")
        case False
        with r4 have "d2 v = Some (k + 1)" "(k + 1, v, p @ [v]) \<in> set pq2" by blast+
        with d have "(jv, v, p @ [v]) \<in> set pq2" by simp
        then show ?thesis unfolding settled_def by blast
      next
        case True
        with d have dv: "sp_distance s v = Some jv" by simp
        with st have old: "settled g (sp_pq s) (sp_distance s) v jv" by blast
        have exp: "\<forall>n. passable g ?c n \<longrightarrow> (\<exists>j'. d2 n = Some j' \<and> j' \<le> k + 1)"
          using r5 by (simp add: pas)
        show ?thesis
        proof (cases "\<exists>p'. (jv, v, p') \<in> set (sp_pq s)")
          case True
          then obtain p' where p': "(jv, v, p') \<in> set (sp_pq s)" by blast
          show ?thesis
          proof (cases "(jv, v, p') = ?e")
            case True
            then have "v = ?c" "jv = k" by simp_all
            with nx exp show ?thesis unfolding settled_def by simp
          next
            case False
            with p' have "(jv, v, p') \<in> set pq" unfolding hm(2) by simp
            with r1 show ?thesis unfolding settled_def by blast
          qed
        next
          case False
          with old have vx: "v \<noteq> maze_exit g"
            and nb: "\<forall>n. passable g v n \<longrightarrow> (\<exists>j'. sp_distance s n = Some j' \<and> j' \<le> jv + 1)"
            unfolding settled_def by blast+
          have "\<exists>j'. d2 n = Some j' \<and> j' \<le> jv + 1" if "passable g v n" for n
          proof -
            from nb that obtain j' where "sp_distance s n = Some j'" "j' \<le> jv + 1" by blast
            with r3 show ?thesis by (meson order_trans)
          qed
          with vx show ?thesis unfolding settled_def by blast
        qed
      qed
      have "d2 (entry g) = Some 0" using r3 e0 by fastforce
      with q2 s2 yok have "search_inv g ?s'" by (simp add: search_inv_def)
      with step show ?thesis by simp
    qed
  qed
qed


lemma search_loop_correct:
  "search_inv g s \<Longrightarrow> grid_ok g (maze g) \<Longrightarrow>
   \<exists>r ys. search_loop g s = Inr (r, ys)
     \<and> (case r of
          Some p \<Rightarrow>
            entry_path g p (maze_exit g) \<and> ys \<noteq> [] \<and> last ys = p
            \<and> (\<forall>y\<in>set (butlast ys). y \<noteq> [] \<and> last y \<noteq> maze_exit g)
            \<and> (\<forall>q. entry_path g q (maze_exit g) \<longrightarrow> length p \<le> length q)
        | None \<Rightarrow>
            (\<forall>q. \<not> entry_path g q (maze_exit g))
            \<and> (\<forall>y\<in>set ys. y \<noteq> [] \<and> last y \<noteq> maze_exit g))"
proof (induction g s rule: search_loop.induct)
  case (1 g s)
  from "1.prems"(1) have
    st: "\<forall>c j. sp_distance s c = Some j \<longrightarrow> settled g (sp_pq s) (sp_distance s) c j"
    and e0: "sp_distance s (entry g) = Some 0"
    and ys: "\<forall>y\<in>set (sp_yields s). y \<noteq> [] \<and> last y \<noteq> maze_exit g"
    by (simp_all add: search_inv_def)
  show ?case
  proof (cases "sp_pq s = []")
    case True
    have "\<not> entry_path g q (maze_exit g)" for q
    proof
      assume q: "entry_path g q (maze_exit g)"
      have "\<forall>e\<in>set (sp_pq s). length q \<le> fst e" using True by simp
      from no_shorter_path [OF st e0 this q] show False by simp
    qed
    with True ys show ?thesis by simp
  next
    case False
    note si = search_step_inv [OF "1.prems"(1) False "1.prems"(2)]
    show ?thesis
    proof (cases "search_step g s")
      case (Found p ys')
      with si have "entry_path g p (maze_exit g)" "ys' = sp_yields s @ [p]"
        "\<forall>q. entry_path g q (maze_exit g) \<longrightarrow> length p \<le> length q" by simp_all
      with False Found ys show ?thesis by simp
    next
      case (Continue s')
      with si have "search_inv g s'" by simp
      from "1.IH" [OF False Continue this "1.prems"(2)] False Continue show ?thesis by simp
    next
      case (Raise e)
      with si show ?thesis by simp
    qed
  qed
qed

section \<open>Routes through open edges\<close>

text \<open>
  An open edge joins two cells of the grid that are neighbours in one of the four
  directions when neither has the wall facing the other. A route is a list of cells from
  the entry to the exit in which every two consecutive cells are joined by an open edge.
\<close>

definition open_edge :: "maze_generator \<Rightarrow> coord \<Rightarrow> coord \<Rightarrow> bool" where
  "open_edge g a b =
     (in_grid g (fst a) (snd a) \<and> in_grid g (fst b) (snd b)
      \<and> (\<exists>(dx, dy, wall, op_wall)\<in>set DIRECTIONS.
           b = (fst a + dx, snd a + dy)
           \<and> (case (cell_at (maze g) (fst a) (snd a), cell_at (maze g) (fst b) (snd b)) of
                (Some ca, Some cb) \<Rightarrow> \<not> cell_has_wall ca wall \<and> \<not> cell_has_wall cb op_wall
              | _ \<Rightarrow> False)))"

fun open_walk :: "maze_generator \<Rightarrow> coord list \<Rightarrow> bool" where
  "open_walk g [] = True"
| "open_walk g [a] = True"
| "open_walk g (a # b # ps) = (open_edge g a b \<and> open_walk g (b # ps))"

definition is_route :: "maze_generator \<Rightarrow> coord list \<Rightarrow> bool" where
  "is_route g p = (p \<noteq> [] \<and> hd p = entry g \<and> last p = maze_exit g \<and> open_walk g p)"

lemma passable_cases:
  assumes "cell_at (maze g) ax ay = Some A" and "in_grid g bx by"
  shows "passable g (ax, ay) (bx, by) \<longleftrightarrow>
    (bx = ax \<and> by = ay - 1 \<and> \<not> has_north_wall A) \<or> (bx = ax + 1 \<and> by = ay \<and> \<not> has_east_wall A)
    \<or> (bx = ax \<and> by = ay + 1 \<and> \<not> has_south_wall A) \<or> (bx = ax - 1 \<and> by = ay \<and> \<not> has_west_wall A)"
  using assms by (auto simp: passable_def step_to_def path_directions_def)

lemma cell_has_wall_simps [simp]:
  "cell_has_wall c NORTH = has_north_wall c" "cell_has_wall c EAST = has_east_wall c"
  "cell_has_wall c SOUTH = has_south_wall c" "cell_has_wall c WEST = has_west_wall c"
  by (simp_all add: cell_has_wall_def)

lemma DIRECTIONS_ex:
  "(\<exists>(dx, dy, wall, op_wall)\<in>set DIRECTIONS. P dx dy wall op_wall) \<longleftrightarrow>
   P 0 (-1) NORTH SOUTH \<or> P 1 0 EAST WEST \<or> P 0 1 SOUTH NORTH \<or> P (-1) 0 WEST EAST"
  by (simp add: DIRECTIONS_def)

lemma open_edge_cases:
  assumes "cell_at (maze g) ax ay = Some A" and "cell_at (maze g) bx by = Some B"
    and "in_grid g ax ay" and "in_grid g bx by"
  shows "open_edge g (ax, ay) (bx, by) \<longleftrightarrow>
    (bx = ax \<and> by = ay - 1 \<and> \<not> has_north_wall A \<and> \<not> has_south_wall B)
    \<or> (bx = ax + 1 \<and> by = ay \<and> \<not> has_east_wall A \<and> \<not> has_west_wall B)
    \<or> (bx = ax \<and> by = ay + 1 \<and> \<not> has_south_wall A \<and> \<not> has_north_wall B)
    \<or> (bx = ax - 1 \<and> by = ay \<and> \<not> has_west_wall A \<and> \<not> has_east_wall B)"
  unfolding open_edge_def DIRECTIONS_ex using assms by auto

lemma wall_symmetric_cells:
  assumes ok: "grid_ok g m" and sym: "wall_symmetric g m"
    and a: "in_grid g x y" and d: "(dx, dy, wall, op_wall) \<in> set DIRECTIONS"
    and b: "in_grid g (x + dx) (y + dy)"
  shows "cell_has_wall (m ! nat y ! nat x) wall
         = cell_has_wall (m ! nat (y + dy) ! nat (x + dx)) op_wall"
proof -
  from a have "x \<in> {0..<width g}" "y \<in> {0..<height g}" by (simp_all add: in_grid_def)
  with sym d b have "case (cell_at m x y, cell_at m (x + dx) (y + dy)) of
         (Some a, Some b) \<Rightarrow> cell_has_wall a wall = cell_has_wall b op_wall | _ \<Rightarrow> False"
    unfolding wall_symmetric_def by fast
  then show ?thesis by (simp add: cell_at_in_grid [OF ok a] cell_at_in_grid [OF ok b])
qed

lemma passable_in_grid: "passable g a b \<Longrightarrow> in_grid g (fst b) (snd b)"
  by (auto simp: passable_def step_to_def split: option.splits)

lemma passable_open_edge:
  assumes ok: "grid_ok g (maze g)" and sym: "wall_symmetric g (maze g)"
    and a: "in_grid g (fst a) (snd a)"
  shows "passable g a b = open_edge g a b"
proof (cases "in_grid g (fst b) (snd b)")
  case False
  then have "\<not> passable g a b" using passable_in_grid by blast
  moreover from False have "\<not> open_edge g a b" by (simp add: open_edge_def)
  ultimately show ?thesis by simp
next
  case b: True
  obtain ax ay where ae: "a = (ax, ay)" by (cases a)
  obtain bx "by" where be: "b = (bx, by)" by (cases b)
  from a b have ag: "in_grid g ax ay" and bg: "in_grid g bx by" by (simp_all add: ae be)
  note ca = cell_at_in_grid [OF ok ag] and cb = cell_at_in_grid [OF ok bg]
  note ws = wall_symmetric_cells [OF ok sym ag]
  have n: "has_north_wall (maze g ! nat ay ! nat ax) = has_south_wall (maze g ! nat by ! nat bx)"
    if "bx = ax" "by = ay - 1"
    using ws [of 0 "-1" NORTH SOUTH] bg that by (simp add: DIRECTIONS_def)
  have e: "has_east_wall (maze g ! nat ay ! nat ax) = has_west_wall (maze g ! nat by ! nat bx)"
    if "bx = ax + 1" "by = ay"
    using ws [of 1 0 EAST WEST] bg that by (simp add: DIRECTIONS_def)
  have s: "has_south_wall (maze g ! nat ay ! nat ax) = has_north_wall (maze g ! nat by ! nat bx)"
    if "bx = ax" "by = ay + 1"
    using ws [of 0 1 SOUTH NORTH] bg that by (simp add: DIRECTIONS_def)
  have w: "has_west_wall (maze g ! nat ay ! nat ax) = has_east_wall (maze g ! nat by ! nat bx)"
    if "bx = ax - 1" "by = ay"
    using ws [of "-1" 0 WEST EAST] bg that by (simp add: DIRECTIONS_def)
  show ?thesis
    unfolding ae be passable_cases [OF ca bg] open_edge_cases [OF ca cb ag bg]
    using n e s w by auto
qed

lemma pwalk_open_walk:
  "grid_ok g (maze g) \<Longrightarrow> wall_symmetric g (maze g) \<Longrightarrow> p \<noteq> [] \<Longrightarrow>
   in_grid g (fst (hd p)) (snd (hd p)) \<Longrightarrow> pwalk g p = open_walk g p"
proof (induction g p rule: pwalk.induct)
  case (1 g)
  then show ?case by simp
next
  case (2 g a)
  then show ?case by simp
next
  case (3 g a b ps)
  from "3.prems" have a: "in_grid g (fst a) (snd a)" by simp
  note pe = passable_open_edge [OF "3.prems"(1,2) a, of b]
  show ?case
  proof (cases "passable g a b")
    case True
    from passable_in_grid [OF True] "3.IH" "3.prems"(1,2)
    have "pwalk g (b # ps) = open_walk g (b # ps)"
      by simp
    with pe show ?thesis by simp
  next
    case False
    with pe show ?thesis by simp
  qed
qed

lemma entry_path_is_route:
  assumes "grid_ok g (maze g)" and "wall_symmetric g (maze g)"
    and "in_grid g (fst (entry g)) (snd (entry g))"
  shows "entry_path g p (maze_exit g) = is_route g p"
proof (cases "p \<noteq> [] \<and> hd p = entry g")
  case True
  with pwalk_open_walk [OF assms(1,2), of p] assms(3) show ?thesis
    by (simp add: entry_path_def is_route_def)
next
  case False
  then show ?thesis by (auto simp: entry_path_def is_route_def)
qed

section \<open>Claims about the shortest-path search\<close>

lemma search_result:
  assumes r: "reachable rng g" and ne: "maze g \<noteq> []"
  shows "\<exists>r ys. search_loop g (search_start g) = Inr (r, ys)
     \<and> (case r of
          Some p \<Rightarrow>
            is_route g p \<and> ys \<noteq> [] \<and> last ys = p
            \<and> (\<forall>y\<in>set (butlast ys). y \<noteq> [] \<and> last y \<noteq> maze_exit g)
            \<and> (\<forall>q. is_route g q \<longrightarrow> length p \<le> length q)
        | None \<Rightarrow>
            (\<forall>q. \<not> is_route g q) \<and> (\<forall>y\<in>set ys. y \<noteq> [] \<and> last y \<noteq> maze_exit g))"
proof -
  from reachable_gen_inv [OF r] ne have gk: "gen_ok g" and ok: "grid_ok g (maze g)"
    and sym: "wall_symmetric g (maze g)"
    by (simp_all add: gen_inv_def carve_inv_def)
  have eg: "in_grid g (fst (entry g)) (snd (entry g))"
    using gen_ok_entry [OF gk] by (rule in_maze_bounds_in_grid)
  note er = entry_path_is_route [OF ok sym eg]
  from search_loop_correct [OF search_start_inv [OF eg] ok]
  show ?thesis unfolding er .
qed

lemma find_shortest_path_steps_found:
  "maze g \<noteq> [] \<Longrightarrow> search_loop g (search_start g) = Inr (Some p, ys) \<Longrightarrow>
   find_shortest_path_steps g = Inr (g\<lparr>path := p\<rparr>, ys)"
  by (simp add: find_shortest_path_steps_def)

lemma find_shortest_path_steps_none:
  "maze g \<noteq> [] \<Longrightarrow> search_loop g (search_start g) = Inr (None, ys) \<Longrightarrow>
   find_shortest_path_steps g = Inr (g, ys)"
  by (simp add: find_shortest_path_steps_def)

text \<open>
  C2. In every reachable state with a grid, the search stores a path exactly when a route
  from the entry to the exit exists. The stored path is a route: it starts at the entry,
  ends at the exit, and every two consecutive cells are neighbours in one of the four
  directions with no wall between them on either side. No route has fewer edges.
\<close>

theorem stored_path_is_shortest_route:
  assumes "reachable rng g" and "maze g \<noteq> []"
  shows "(\<forall>p ys. find_shortest_path_steps g = Inr (g\<lparr>path := p\<rparr>, ys) \<and> ys \<noteq> [] \<and> last ys = p
             \<and> last p = maze_exit g
           \<longrightarrow> is_route g p \<and> (\<forall>q. is_route g q \<longrightarrow> length p - 1 \<le> length q - 1))
    \<and> ((\<exists>q. is_route g q) \<longrightarrow>
         (\<exists>p ys. find_shortest_path_steps g = Inr (g\<lparr>path := p\<rparr>, ys) \<and> ys \<noteq> [] \<and> last ys = p
            \<and> last p = maze_exit g \<and> find_shortest_path g = Inr (g\<lparr>path := p\<rparr>)))"
proof -
  from search_result [OF assms] obtain r ys where
    sl: "search_loop g (search_start g) = Inr (r, ys)"
    and res: "case r of
          Some p \<Rightarrow>
            is_route g p \<and> ys \<noteq> [] \<and> last ys = p
            \<and> (\<forall>y\<in>set (butlast ys). y \<noteq> [] \<and> last y \<noteq> maze_exit g)
            \<and> (\<forall>q. is_route g q \<longrightarrow> length p \<le> length q)
        | None \<Rightarrow>
            (\<forall>q. \<not> is_route g q) \<and> (\<forall>y\<in>set ys. y \<noteq> [] \<and> last y \<noteq> maze_exit g)"
    by blast
  show ?thesis
  proof (cases r)
    case None
    with res have nr: "\<forall>q. \<not> is_route g q" and ny: "\<forall>y\<in>set ys. y \<noteq> [] \<and> last y \<noteq> maze_exit g"
      by simp_all
    have fs: "find_shortest_path_steps g = Inr (g, ys)"
      using find_shortest_path_steps_none [OF assms(2)] sl None by simp
    have "\<not> (find_shortest_path_steps g = Inr (g\<lparr>path := p\<rparr>, ys') \<and> ys' \<noteq> [] \<and> last ys' = p
             \<and> last p = maze_exit g)" for p ys'
    proof
      assume a: "find_shortest_path_steps g = Inr (g\<lparr>path := p\<rparr>, ys') \<and> ys' \<noteq> [] \<and> last ys' = p
             \<and> last p = maze_exit g"
      with fs have "ys' = ys" by simp
      with a have "p \<in> set ys" by auto
      with ny a show False by blast
    qed
    with nr show ?thesis by blast
  next
    case (Some p)
    with res have rt: "is_route g p" and yl: "ys \<noteq> []" "last ys = p"
      and mn: "\<forall>q. is_route g q \<longrightarrow> length p \<le> length q"
      by simp_all
    have fs: "find_shortest_path_steps g = Inr (g\<lparr>path := p\<rparr>, ys)"
      using find_shortest_path_steps_found [OF assms(2)] sl Some by simp
    have "is_route g p' \<and> (\<forall>q. is_route g q \<longrightarrow> length p' - 1 \<le> length q - 1)"
      if a: "find_shortest_path_steps g = Inr (g\<lparr>path := p'\<rparr>, ys')" "last ys' = p'" for p' ys'
    proof -
      from a(1) fs have "ys' = ys" by simp
      with a(2) yl have "p' = p" by simp
      with rt mn show ?thesis by (auto intro: diff_le_mono)
    qed
    moreover have "last p = maze_exit g" using rt by (simp add: is_route_def)
    moreover have "find_shortest_path g = Inr (g\<lparr>path := p\<rparr>)"
      using fs by (simp add: find_shortest_path_def)
    ultimately show ?thesis using fs yl by blast
  qed
qed


text \<open>
  The example for the search: 9 by 9 with the exit (1, 0) beside the entry (0, 0), after
  the first carving step of \<open>dfs_steps\<close> when the first draw is 0, which opens the wall
  pair between the entry and the exit.
\<close>

definition example_near :: maze_generator where
  "example_near =
     \<lparr>width = 9, height = 9, entry = (0, 0), maze_exit = (1, 0), seed = 42,
      output_file = ''maze.txt'', perfect = True, pattern_42 = pattern_cells 1 2,
      maze = [], path = []\<rparr>"

definition example_near_carved :: maze_generator where
  "example_near_carved =
     example_near\<lparr>maze :=
       ds_maze (projr (dfs_iter 1 example_near (\<lambda>k. 0) (projr (dfs_start example_near))))\<rparr>"

lemma example_near_carved_reachable: "reachable (\<lambda>sd k. 0) example_near_carved"
proof -
  have i: "init 0 (PInt 9) (PInt 9) (PTuple [PInt 0, PInt 0]) (PTuple [PInt 1, PInt 0])
       (PStr ''maze.txt'') (PBool True) (Some (PInt 42)) = Inr example_near"
    by (simp add: init_def validate_inputs_def check_point_def generate_pattern_42_def
        pattern_anchor_def pattern_cells_def example_near_def)
  have "\<not> isl (dfs_start example_near)" by code_simp
  then have s0: "dfs_start example_near = Inr (projr (dfs_start example_near))" by simp
  have "\<not> isl (dfs_iter 1 example_near (\<lambda>k. 0) (projr (dfs_start example_near)))"
    by code_simp
  then have s1: "dfs_iter 1 example_near ((\<lambda>sd k. 0) (seed example_near))
        (projr (dfs_start example_near))
      = Inr (projr (dfs_iter 1 example_near (\<lambda>k. 0) (projr (dfs_start example_near))))"
    by simp
  from r_dfs_event [OF r_init [OF i] s0 s1] show ?thesis
    by (simp only: example_near_carved_def)
qed

theorem stored_path_is_shortest_route_witness:
  "\<exists>p. find_shortest_path example_near_carved = Inr (example_near_carved\<lparr>path := p\<rparr>)
       \<and> is_route example_near_carved p \<and> length p - 1 \<le> 1"
proof -
  have ne: "maze example_near_carved \<noteq> []" by code_simp
  have q: "is_route example_near_carved [(0, 0), (1, 0)]" by code_simp
  note t = stored_path_is_shortest_route [OF example_near_carved_reachable ne]
  from t q obtain p ys where
    fs: "find_shortest_path_steps example_near_carved = Inr (example_near_carved\<lparr>path := p\<rparr>, ys)"
      "ys \<noteq> []" "last ys = p" "last p = maze_exit example_near_carved"
    and fp: "find_shortest_path example_near_carved = Inr (example_near_carved\<lparr>path := p\<rparr>)"
    by blast
  from t fs have "is_route example_near_carved p"
    "\<forall>q. is_route example_near_carved q \<longrightarrow> length p - 1 \<le> length q - 1" by blast+
  with q fp show ?thesis by fastforce
qed

text \<open>
  C8. In a reachable state whose grid has no route from the entry to the exit, the
  search raises nothing and returns with the generator as it was, the stored path
  included; none of the paths it yields ends at the exit. Without a grid the search
  returns at once, yields nothing and leaves the generator as it was.
\<close>

theorem search_without_route_keeps_path:
  assumes "reachable rng g" and "maze g = [] \<or> \<not> (\<exists>q. is_route g q)"
  shows "find_shortest_path g = Inr g
    \<and> (\<exists>ys. find_shortest_path_steps g = Inr (g, ys)
           \<and> list_all (\<lambda>y. y \<noteq> [] \<and> last y \<noteq> maze_exit g) ys
           \<and> (if maze g = [] then ys = [] else True))"
proof (cases "maze g = []")
  case True
  then show ?thesis by (simp add: find_shortest_path_def find_shortest_path_steps_def)
next
  case False
  with assms(2) have nr: "\<forall>q. \<not> is_route g q" by blast
  from search_result [OF assms(1) False] obtain r ys where
    sl: "search_loop g (search_start g) = Inr (r, ys)"
    and res: "case r of
          Some p \<Rightarrow>
            is_route g p \<and> ys \<noteq> [] \<and> last ys = p
            \<and> (\<forall>y\<in>set (butlast ys). y \<noteq> [] \<and> last y \<noteq> maze_exit g)
            \<and> (\<forall>q. is_route g q \<longrightarrow> length p \<le> length q)
        | None \<Rightarrow>
            (\<forall>q. \<not> is_route g q) \<and> (\<forall>y\<in>set ys. y \<noteq> [] \<and> last y \<noteq> maze_exit g)"
    by blast
  from res nr have r: "r = None" by (cases r) auto
  with res have ny: "\<forall>y\<in>set ys. y \<noteq> [] \<and> last y \<noteq> maze_exit g" by simp
  have fs: "find_shortest_path_steps g = Inr (g, ys)"
    using find_shortest_path_steps_none [OF False] sl r by simp
  then have "find_shortest_path g = Inr g" by (simp add: find_shortest_path_def)
  with fs ny False show ?thesis by (simp add: list_all_iff)
qed

lemma fresh_grid_no_open_edge:
  "\<not> open_edge (g\<lparr>maze := generate_grid g\<rparr>) a b"
proof
  let ?g = "g\<lparr>maze := generate_grid g\<rparr>"
  assume oe: "open_edge ?g a b"
  then have a: "in_grid g (fst a) (snd a)" and b: "in_grid g (fst b) (snd b)"
    by (simp_all add: open_edge_def in_grid_def)
  have ca: "cell_at (generate_grid g) (fst a) (snd a) = Some Cell"
    using cell_at_in_grid [OF generate_grid_ok a] generate_grid_nth [OF a] by simp
  have cb: "cell_at (generate_grid g) (fst b) (snd b) = Some Cell"
    using cell_at_in_grid [OF generate_grid_ok b] generate_grid_nth [OF b] by simp
  have "cell_has_wall Cell NORTH" "cell_has_wall Cell EAST" "cell_has_wall Cell SOUTH"
    "cell_has_wall Cell WEST"
    by (simp_all add: cell_has_wall_def Cell_def has_north_wall_def has_east_wall_def
        has_south_wall_def has_west_wall_def NORTH_def EAST_def SOUTH_def WEST_def)
  with oe show False
    unfolding open_edge_def DIRECTIONS_ex by (simp add: ca cb)
qed

lemma route_first_edge:
  assumes "is_route g q" and "entry g \<noteq> maze_exit g"
  shows "\<exists>b. open_edge g (entry g) b"
proof -
  from assms obtain a q' where q: "q = a # q'" by (cases q) (auto simp: is_route_def)
  with assms have a: "a = entry g" by (simp add: is_route_def)
  show ?thesis
  proof (cases q')
    case Nil
    with assms q a show ?thesis by (simp add: is_route_def)
  next
    case (Cons b q'')
    with assms(1) q a have "open_edge g (entry g) b" by (simp add: is_route_def)
    then show ?thesis by blast
  qed
qed

theorem search_without_route_keeps_path_witness:
  "find_shortest_path (example_gen True\<lparr>maze := generate_grid (example_gen True)\<rparr>)
     = Inr (example_gen True\<lparr>maze := generate_grid (example_gen True)\<rparr>)
   \<and> find_shortest_path (example_gen True) = Inr (example_gen True)"
proof -
  let ?g = "example_gen True\<lparr>maze := generate_grid (example_gen True)\<rparr>"
  have r0: "reachable (\<lambda>sd k. k) (example_gen True)" by (rule example_gen_reachable)
  have r1: "reachable (\<lambda>sd k. k) ?g" by (rule r_first_event [OF r0])
  have ne: "entry ?g \<noteq> maze_exit ?g" by (simp add: example_gen_def)
  have nr: "maze ?g = [] \<or> \<not> (\<exists>q. is_route ?g q)"
    using route_first_edge [OF _ ne] fresh_grid_no_open_edge [of "example_gen True"]
    by auto
  have e: "maze (example_gen True) = [] \<or> \<not> (\<exists>q. is_route (example_gen True) q)"
    by (simp add: example_gen_def)
  from search_without_route_keeps_path [OF r1 nr] search_without_route_keeps_path [OF r0 e]
  show ?thesis by blast
qed

end
